theory Spec2Isabelle
  imports Main
begin

section \<open>Python strings\<close>

text \<open>
  A Python \<open>str\<close> is modelled as a HOL \<open>string\<close>. Each \<open>char\<close> is one byte of the
  UTF-8 text; the classifications the source relies on (\<open>strip\<close>, \<open>lower\<close>,
  \<open>splitlines\<close>, the regular expression class \<open>\d\<close>) are modelled on the ASCII
  range, where a byte is a code point. The model is Python's behaviour on every text
  whose characters beyond ASCII are no white space, line boundary, digit or cased
  letter, as the emoji of the source are. Beyond that the two differ: Python also
  strips U+00A0 and splits lines at U+2028, for one. So the properties below that
  depend on these classifications and range over the texts a caller passes take them
  in ASCII, by the hypothesis \<open>isascii\<close>; the others evaluate the code on texts that
  are written out.
  A file is the text it holds, decoded; a missing file is \<open>None\<close>.
\<close>

text \<open>\<open>str.isascii()\<close>: every character is below 128.\<close>

definition isascii :: "string \<Rightarrow> bool" where
  "isascii s = list_all (\<lambda>c. (of_char c :: nat) < 128) s"

definition isspace :: "char \<Rightarrow> bool" where
  "isspace c = (c \<in> {CHR 0x09, CHR 0x0A, CHR 0x0B, CHR 0x0C, CHR 0x0D,
                       CHR 0x1C, CHR 0x1D, CHR 0x1E, CHR 0x1F, CHR 0x20})"

definition isdigit :: "char \<Rightarrow> bool" where
  "isdigit c = (c \<in> set ''0123456789'')"

definition lower_char :: "char \<Rightarrow> char" where
  "lower_char c =
     (let n = (of_char c :: nat) in if 65 \<le> n \<and> n \<le> 90 then char_of (n + 32) else c)"

definition lower :: "string \<Rightarrow> string" where
  "lower s = map lower_char s"

definition strip :: "string \<Rightarrow> string" where
  "strip s = rev (dropWhile isspace (rev (dropWhile isspace s)))"

definition startswith :: "string \<Rightarrow> string \<Rightarrow> bool" where
  "startswith s p = (take (length p) s = p)"

text \<open>\<open>contains needle s\<close> is Python's \<open>needle in s\<close>.\<close>

fun contains :: "string \<Rightarrow> string \<Rightarrow> bool" where
  "contains needle [] = (needle = [])"
| "contains needle (x # xs) = (startswith (x # xs) needle \<or> contains needle xs)"

text \<open>\<open>split_on c s\<close> is \<open>s.split(c)\<close> for a one-character separator: never empty.\<close>

fun split_on :: "char \<Rightarrow> string \<Rightarrow> string list" where
  "split_on c [] = [[]]"
| "split_on c (x # xs) =
     (if x = c then [] # split_on c xs
      else (case split_on c xs of [] \<Rightarrow> [[x]] | l # ls \<Rightarrow> (x # l) # ls))"

definition is_linebreak :: "char \<Rightarrow> bool" where
  "is_linebreak c = (c \<in> {CHR 0x0A, CHR 0x0B, CHR 0x0C, CHR 0x0D, CHR 0x1C, CHR 0x1D, CHR 0x1E})"

text \<open>\<open>str.splitlines()\<close>: \<open>\r\n\<close> is one boundary, and a final boundary opens no line.\<close>

fun splitlines :: "string \<Rightarrow> string list" where
  "splitlines [] = []"
| "splitlines (x # xs) =
     (if x = CHR 0x0D \<and> xs \<noteq> [] \<and> hd xs = CHR 0x0A then [] # splitlines (tl xs)
      else if is_linebreak x then [] # splitlines xs
      else (case splitlines xs of [] \<Rightarrow> [[x]] | l # ls \<Rightarrow> (x # l) # ls))"

text \<open>\<open>join_nl ls\<close> is \<open>"\n".join(ls)\<close>.\<close>

fun join_nl :: "string list \<Rightarrow> string" where
  "join_nl [] = []"
| "join_nl [l] = l"
| "join_nl (l # ls) = l @ CHR 0x0A # join_nl ls"

text \<open>
  Files are opened in text mode with the default \<open>newline=None\<close>: on reading, \<open>\r\n\<close>
  and a lone \<open>\r\<close> arrive as \<open>\n\<close>; on a POSIX system writing stores the text as it is.
\<close>

fun read_text :: "string \<Rightarrow> string" where
  "read_text [] = []"
| "read_text (x # xs) =
     (if x = CHR 0x0D \<and> xs \<noteq> [] \<and> hd xs = CHR 0x0A then CHR 0x0A # read_text (tl xs)
      else if x = CHR 0x0D then CHR 0x0A # read_text xs
      else x # read_text xs)"

text \<open>\<open>remove_all old s\<close> is \<open>s.replace(old, "")\<close>, scanning from the left.\<close>

function remove_all :: "string \<Rightarrow> string \<Rightarrow> string" where
  "remove_all old [] = []"
| "remove_all old (x # xs) =
     (if old \<noteq> [] \<and> startswith (x # xs) old
      then remove_all old (drop (length old) (x # xs))
      else x # remove_all old xs)"
  by pat_completeness auto
termination
  by (relation "measure (\<lambda>(old, s). length s)") auto

text \<open>
  \<open>re.search(r'\d+(\.\d+)?', s)\<close>: the leftmost run of digits, with a fraction when a
  dot and a digit follow it; \<open>None\<close> when \<open>s\<close> has no digit.
\<close>

definition re_search_number :: "string \<Rightarrow> string option" where
  "re_search_number s =
     (let r = dropWhile (\<lambda>c. \<not> isdigit c) s in
      if r = [] then None
      else
        let ds = takeWhile isdigit r; rest = dropWhile isdigit r in
        (case rest of
           c # d # t \<Rightarrow>
             if c = CHR ''.'' \<and> isdigit d then Some (ds @ c # takeWhile isdigit (d # t))
             else Some ds
         | _ \<Rightarrow> Some ds))"

text \<open>\<open>str(n)\<close> for a natural number.\<close>

fun str_nat :: "nat \<Rightarrow> string" where
  "str_nat n =
     (if n < 10 then [char_of (48 + n)] else str_nat (n div 10) @ [char_of (48 + n mod 10)])"

declare str_nat.simps [simp del]

section \<open>The finance ledger (agents/finance.py)\<close>

text \<open>
  Every method of the agents returns a message, and runs its body under
  \<open>except Exception\<close> to turn whatever is raised into a message. The model takes the
  file as its text; no step of the modelled bodies raises on a text, apart from reading
  a file that is missing. A method is modelled with the message it returns and the
  file it leaves.
\<close>

text \<open>
  \<open>_ensure_file_exists\<close>: the header is written only when the file is absent. \<open>date\<close>
  and \<open>month\<close> are what the clock gives for \<open>%Y-%m-%d\<close> and \<open>%B %Y\<close> at the call.
\<close>

definition finance_header :: "string \<Rightarrow> string \<Rightarrow> string" where
  "finance_header date month =
     ''---'' @ [CHR 0x0A] @
     ''type: finance_log'' @ [CHR 0x0A] @
     ''status: active'' @ [CHR 0x0A] @
     ''created: '' @ date @ [CHR 0x0A] @
     ''---'' @ [CHR 0x0A] @
     [CHR 0x0A] @
     ''# Financial Log: '' @ month @ [CHR 0x0A] @
     [CHR 0x0A] @
     ''| Date | Type | Category | Description | Amount | Currency |'' @ [CHR 0x0A] @
     ''| :--- | :--- | :--- | :--- | :--- | :--- |'' @ [CHR 0x0A]"

definition ensure_file_exists :: "string \<Rightarrow> string \<Rightarrow> string option \<Rightarrow> string option" where
  "ensure_file_exists date month file =
     (case file of None \<Rightarrow> Some (finance_header date month) | Some c \<Rightarrow> Some c)"

text \<open>
  \<open>log_transaction\<close>. The clock is read three times: \<open>day\<close> and \<open>month\<close> go into the
  header of a new file, \<open>minute\<close> (\<open>%Y-%m-%d %H:%M\<close>) dates the row. \<open>amount\<close> is the
  text that formatting the number gives.
\<close>

record clock =
  day :: string
  month :: string
  minute :: string

definition infer_category :: "string \<Rightarrow> string \<Rightarrow> string" where
  "infer_category category description =
     (if category = ''General'' then
        (let desc_lower = lower description in
         if list_ex (\<lambda>x. contains x desc_lower) [''uber'', ''taxi'', ''bus'', ''train'', ''gas'']
         then ''Transport''
         else if list_ex (\<lambda>x. contains x desc_lower)
                   [''food'', ''lunch'', ''dinner'', ''groceries'', ''market'', ''arepa'']
         then ''Food''
         else if list_ex (\<lambda>x. contains x desc_lower) [''netflix'', ''spotify'', ''movie'', ''game'']
         then ''Entertainment''
         else if list_ex (\<lambda>x. contains x desc_lower) [''salary'', ''freelance'', ''client'']
         then ''Income''
         else category)
      else category)"

definition transaction_row ::
  "string \<Rightarrow> string \<Rightarrow> string \<Rightarrow> string \<Rightarrow> string \<Rightarrow> string \<Rightarrow> string" where
  "transaction_row date_str type category description amount currency =
     ''| '' @ date_str @ '' | '' @ type @ '' | '' @ category @ '' | '' @ description @
     '' | '' @ amount @ '' | '' @ currency @ '' |'' @ [CHR 0x0A]"

definition log_transaction ::
  "clock \<Rightarrow> string \<Rightarrow> string \<Rightarrow> string \<Rightarrow> string \<Rightarrow> string \<Rightarrow> string option
     \<Rightarrow> string \<times> string option" where
  "log_transaction now description amount type category currency file =
     (let content = (case file of None \<Rightarrow> finance_header (day now) (month now) | Some c \<Rightarrow> c);
          category' = infer_category category description;
          row = transaction_row (minute now) type category' description amount currency
      in (''Transaction logged: '' @ type @ '' of '' @ amount @ '' '' @ currency @ '' for ''
            @ [CHR 0x27] @ description @ [CHR 0x27] @ '' ('' @ category' @ '').'',
          Some (content @ row)))"



definition cells :: "string \<Rightarrow> string list" where
  "cells line = filter (\<lambda>v. v \<noteq> []) (map strip (split_on CHR ''|'' line))"



text \<open>
  \<open>delete_specific_transaction\<close>: the message and the file afterwards. The file is the
  text it decodes to; a file that is no UTF-8 text, which the code answers with
  \<open>Failed to delete transaction:\<close> and leaves alone, is not a value of the model.
\<close>

definition clean_criteria :: "string \<Rightarrow> string" where
  "clean_criteria criteria =
     strip (remove_all ''cop'' (remove_all ''usd'' (remove_all '','' (remove_all ''$'' (lower criteria)))))"

definition skipped :: "string \<Rightarrow> bool" where
  "skipped line =
     (startswith line ''| Date'' \<or> startswith line ''| :---'' \<or> strip line = [] \<or>
      startswith line ''#'' \<or> startswith line ''---'' \<or> startswith line ''type:'')"

fun find_match :: "string \<Rightarrow> string option \<Rightarrow> nat \<Rightarrow> string list \<Rightarrow> int \<Rightarrow> int" where
  "find_match clean criteria_number i [] match_index = match_index"
| "find_match clean criteria_number i (line # rest) match_index =
     (if skipped line then find_match clean criteria_number (Suc i) rest match_index
      else
        (let line_lower = lower line in
         if (case criteria_number of None \<Rightarrow> False | Some n \<Rightarrow> n \<noteq> [] \<and> contains n line_lower)
         then find_match clean criteria_number (Suc i) rest (int i)
         else if contains clean line_lower
         then find_match clean criteria_number (Suc i) rest (int i)
         else find_match clean criteria_number (Suc i) rest match_index))"

text \<open>A line matches the criteria when one of the two checks of the scan holds for it.\<close>

definition matches :: "string \<Rightarrow> string option \<Rightarrow> string \<Rightarrow> bool" where
  "matches clean criteria_number line =
     (let line_lower = lower line in
      (case criteria_number of None \<Rightarrow> False | Some n \<Rightarrow> n \<noteq> [] \<and> contains n line_lower) \<or>
      contains clean line_lower)"

definition del_at :: "nat \<Rightarrow> 'a list \<Rightarrow> 'a list" where
  "del_at i xs = take i xs @ drop (Suc i) xs"

definition delete_specific_transaction :: "string option \<Rightarrow> string \<Rightarrow> string \<times> string option" where
  "delete_specific_transaction file criteria =
     (case file of
        None \<Rightarrow> (''No transaction file found for this month.'', None)
      | Some raw \<Rightarrow>
          (let lines = splitlines (read_text raw);
               clean = clean_criteria criteria;
               criteria_number = re_search_number clean;
               match_index = find_match clean criteria_number 0 lines (- 1)
           in if match_index \<noteq> - 1 then
                (''Successfully deleted transaction: '' @ lines ! nat match_index,
                 Some (join_nl (del_at (nat match_index) lines) @ [CHR 0x0A]))
              else (''No matching transaction found for '' @ [CHR 0x27] @ criteria @ [CHR 0x27] @ ''.'',
                    Some raw)))"

text \<open>\<open>undo_last_transaction\<close>: the scan runs from the last line upwards.\<close>

definition undo_row :: "string \<Rightarrow> bool" where
  "undo_row line =
     (strip line \<noteq> [] \<and> startswith line ''|'' \<and> \<not> startswith line ''| Date'' \<and>
      \<not> startswith line ''| :---'')"

fun undo_scan :: "string list \<Rightarrow> nat \<Rightarrow> nat option" where
  "undo_scan lines 0 = None"
| "undo_scan lines (Suc i) = (if undo_row (lines ! i) then Some i else undo_scan lines i)"

definition undo_last_transaction :: "string option \<Rightarrow> string \<times> string option" where
  "undo_last_transaction file =
     (case file of
        None \<Rightarrow> (''No transaction file found.'', None)
      | Some raw \<Rightarrow>
          (let lines = splitlines (read_text raw) in
           case undo_scan lines (length lines) of
             Some i \<Rightarrow> (''Undid last transaction: '' @ lines ! i,
                        Some (join_nl (del_at i lines) @ [CHR 0x0A]))
           | None \<Rightarrow> (''No transactions found to undo.'', Some raw)))"

section \<open>The habit tracker (agents/goals.py)\<close>

definition tracker_header :: string where
  "tracker_header =
     ''# Habit Tracker '' @ [CHR 0xF0, CHR 0x9F, CHR 0x8F, CHR 0x83] @ [CHR 0x0A] @
     [CHR 0x0A] @
     ''| Date | Habit | Status | Coach Comment |'' @ [CHR 0x0A] @
     ''| :--- | :--- | :--- | :--- |'' @ [CHR 0x0A]"

definition ensure_tracker_exists :: "string option \<Rightarrow> string option" where
  "ensure_tracker_exists file =
     (case file of None \<Rightarrow> Some tracker_header | Some c \<Rightarrow> Some c)"

text \<open>
  \<open>log_habit\<close>. \<open>date_str\<close> is what the clock gives for \<open>%Y-%m-%d\<close>. The streak is
  counted on the tracker as it is read, before the new row is written.
\<close>

definition success_status :: "string \<Rightarrow> bool" where
  "success_status status =
     (lower status \<in> set [''done'', ''completed'', ''yes'', ''new project started''])"

definition success_line :: "string \<Rightarrow> bool" where
  "success_line line =
     (contains ''Done'' line \<or> contains ''Yes'' line \<or> contains ''New Project'' line)"

fun streak_scan :: "string \<Rightarrow> string list \<Rightarrow> nat \<Rightarrow> nat" where
  "streak_scan habit [] streak = streak"
| "streak_scan habit (line # rest) streak =
     (if contains habit line \<and> success_line line then streak_scan habit rest (streak + 1)
      else if contains habit line then streak
      else streak_scan habit rest streak)"

definition habit_streak :: "string \<Rightarrow> string \<Rightarrow> string \<Rightarrow> nat" where
  "habit_streak habit status content =
     (if success_status status then streak_scan habit (rev (split_on (CHR 0x0A) content)) 0
      else 0)"

definition coach_comment :: "nat \<Rightarrow> string \<Rightarrow> string" where
  "coach_comment streak status =
     (if streak > 2
      then [CHR 0xF0, CHR 0x9F, CHR 0x94, CHR 0xA5] @ '' '' @ str_nat streak @ '' day streak!''
      else if lower status \<in> set [''missed'', ''no'', ''fail'']
      then [CHR 0xE2, CHR 0x9A, CHR 0xA0, CHR 0xEF, CHR 0xB8, CHR 0x8F] @ '' Don'' @ [CHR 0x27]
             @ ''t let this slide.''
      else ''Keep pushing.'')"

definition habit_row :: "string \<Rightarrow> string \<Rightarrow> string \<Rightarrow> string \<Rightarrow> string" where
  "habit_row date_str habit status comment =
     ''| '' @ date_str @ '' | '' @ habit @ '' | '' @ status @ '' | '' @ comment @ '' |''"

text \<open>The update loop: \<open>Some\<close> of the lines with the first matching row replaced, or \<open>None\<close>.\<close>

fun update_scan :: "string \<Rightarrow> string \<Rightarrow> string \<Rightarrow> string list \<Rightarrow> string list option" where
  "update_scan date_str habit new_row [] = None"
| "update_scan date_str habit new_row (line # rest) =
     (if \<not> startswith line ''|'' \<or> startswith line ''| :---'' \<or> contains ''Date'' line
      then map_option ((#) line) (update_scan date_str habit new_row rest)
      else
        (let parts = cells line in
         if length parts \<ge> 4 \<and> parts ! 0 = date_str \<and> parts ! 1 = habit
         then Some (new_row # rest)
         else map_option ((#) line) (update_scan date_str habit new_row rest)))"

definition append_row :: "string list \<Rightarrow> string \<Rightarrow> string list" where
  "append_row lines new_row =
     (if lines \<noteq> [] \<and> strip (last lines) \<noteq> [] then lines @ [[]] else lines) @ [new_row]"

definition log_habit :: "string \<Rightarrow> string \<Rightarrow> string \<Rightarrow> string option \<Rightarrow> string \<times> string option" where
  "log_habit date_str habit status file =
     (case file of
        None \<Rightarrow>
          (''Failed to log habit: [Errno 2] No such file or directory: '' @ [CHR 0x27]
             @ ''vault/Goals/Habit-Tracker.md'' @ [CHR 0x27], None)
      | Some raw \<Rightarrow>
          (let content = read_text raw;
               streak = habit_streak habit status content;
               comment = coach_comment streak status;
               new_row = habit_row date_str habit status comment;
               lines = splitlines content;
               lines' = (case update_scan date_str habit new_row lines of
                           Some updated \<Rightarrow> updated
                         | None \<Rightarrow> append_row lines new_row)
           in (''Habit '' @ [CHR 0x27] @ habit @ [CHR 0x27] @ '' logged as '' @ status @ ''. ''
                 @ comment,
               Some (strip (join_nl lines') @ [CHR 0x0A]))))"

section \<open>The tool step of the ReAct loop (agents/orchestrator.py)\<close>

text \<open>
  A tool returns its string or raises. \<open>except Exception\<close> catches \<open>Exception\<close> and its
  subclasses, carried here with \<open>str(e)\<close>; a \<open>BaseException\<close> outside that class passes
  through.
\<close>

datatype py_raise = Exception string | BaseException string

type_synonym 'a tool = "'a \<Rightarrow> py_raise + string"

definition execute_tool :: "(string \<rightharpoonup> 'a tool) \<Rightarrow> string \<Rightarrow> 'a \<Rightarrow> py_raise + string" where
  "execute_tool available_tools tool_name args =
     (case available_tools tool_name of
        Some f \<Rightarrow>
          (case f args of
             Inr tool_result \<Rightarrow> Inr tool_result
           | Inl (Exception e) \<Rightarrow> Inr (''Error executing tool: '' @ e)
           | Inl (BaseException e) \<Rightarrow> Inl (BaseException e))
      | None \<Rightarrow> Inr (''Error: Tool '' @ tool_name @ '' not found.''))"

text \<open>
  A response is its list of candidates, a candidate its list of parts; a part carries a
  function call, a text, or both. \<open>send\<close> is \<open>chat.send_message\<close> given the function
  response \<open>(name, result)\<close>: it returns the next response and the chat, or raises.
  The loop goes on while the first candidate holds a function call, with no bound on the
  number of rounds, so the result is an option. It ends with the response that holds no
  function call, or with what was raised; indexing an empty list of candidates raises an
  \<open>IndexError\<close>.
\<close>

record 'a part =
  function_call :: "(string \<times> 'a) option"
  part_text :: string

type_synonym 'a response = "'a part list list"

fun first_function_call :: "'a part list \<Rightarrow> (string \<times> 'a) option" where
  "first_function_call [] = None"
| "first_function_call (p # ps) =
     (case function_call p of Some fc \<Rightarrow> Some fc | None \<Rightarrow> first_function_call ps)"

partial_function (option) react_loop ::
  "(string \<rightharpoonup> 'a tool) \<Rightarrow> ('c \<Rightarrow> string \<times> string \<Rightarrow> py_raise + 'a response \<times> 'c)
     \<Rightarrow> 'c \<Rightarrow> 'a response \<Rightarrow> (py_raise + 'a response) option" where
  "react_loop available_tools send chat response =
     (case response of
        [] \<Rightarrow> Some (Inl (Exception ''IndexError''))
      | candidate # _ \<Rightarrow>
          (case first_function_call candidate of
             None \<Rightarrow> Some (Inr response)
           | Some (tool_name, args) \<Rightarrow>
               (case execute_tool available_tools tool_name args of
                  Inl e \<Rightarrow> Some (Inl e)
                | Inr tool_result \<Rightarrow>
                    (case send chat (tool_name, tool_result) of
                       Inl e \<Rightarrow> Some (Inl e)
                     | Inr (response', chat') \<Rightarrow>
                         react_loop available_tools send chat' response'))))"

section \<open>Sequences of calls and example files\<close>

text \<open>A ledger file as \<open>_ensure_file_exists\<close> creates it on 3 November 2025.\<close>

definition fresh_ledger :: "string option" where
  "fresh_ledger = ensure_file_exists ''2025-11-03'' ''November 2025'' None"

text \<open>Transactions logged one after the other, each with the clock of its call.\<close>

type_synonym transaction = "clock \<times> string \<times> string \<times> string \<times> string \<times> string"

fun log_all :: "transaction list \<Rightarrow> string option \<Rightarrow> string option" where
  "log_all [] file = file"
| "log_all ((now, description, amount, type, category, currency) # ts) file =
     log_all ts (snd (log_transaction now description amount type category currency file))"

text \<open>A call that leaves \<open>type\<close>, \<open>category\<close> and \<open>currency\<close> at their defaults.\<close>

definition expense :: "clock \<Rightarrow> string \<Rightarrow> string \<Rightarrow> transaction" where
  "expense now description amount = (now, description, amount, ''Expense'', ''General'', ''USD'')"

definition at_minute :: "string \<Rightarrow> clock" where
  "at_minute m = \<lparr>day = take 10 m, month = ''November 2025'', minute = m\<rparr>"

definition ledger_10_20_10 :: "string option" where
  "ledger_10_20_10 =
     log_all [expense (at_minute ''2025-11-03 09:30'') ''pen'' ''10'',
              expense (at_minute ''2025-11-03 09:31'') ''book'' ''20'',
              expense (at_minute ''2025-11-03 09:32'') ''gift'' ''10''] None"


text \<open>Habits logged one after the other on the tracker the constructor ensures.\<close>

fun log_habits :: "(string \<times> string \<times> string) list \<Rightarrow> string option \<Rightarrow> string option" where
  "log_habits [] file = file"
| "log_habits ((date_str, habit, status) # hs) file =
     log_habits hs (snd (log_habit date_str habit status file))"

definition tracker_after :: "(string \<times> string \<times> string) list \<Rightarrow> string option" where
  "tracker_after hs = log_habits hs (ensure_tracker_exists None)"

text \<open>The streak that the next \<open>log_habit\<close> call computes on a tracker file.\<close>

definition next_streak :: "string \<Rightarrow> string \<Rightarrow> string option \<Rightarrow> nat option" where
  "next_streak habit status file =
     map_option (\<lambda>raw. habit_streak habit status (read_text raw)) file"


text \<open>
  A registry of two tools: \<open>echo\<close> returns its argument, \<open>boom\<close> raises a
  \<open>ValueError\<close>. The model answers every function response with its text.
\<close>

definition demo_tools :: "string \<rightharpoonup> string tool" where
  "demo_tools = [''echo'' \<mapsto> (\<lambda>a. Inr a), ''boom'' \<mapsto> (\<lambda>a. Inl (Exception (''bad '' @ a)))]"

definition demo_send :: "unit \<Rightarrow> string \<times> string \<Rightarrow> py_raise + string response \<times> unit" where
  "demo_send chat fr = Inr ([[\<lparr>function_call = None, part_text = snd fr\<rparr>]], chat)"

definition call_part :: "string \<Rightarrow> 'a \<Rightarrow> 'a part" where
  "call_part tool_name args = \<lparr>function_call = Some (tool_name, args), part_text = []\<rparr>"

text \<open>The ledger after the transactions of amounts 10, 20 and 10, line by line.\<close>

definition text_10_20_10 :: string where
  "text_10_20_10 = join_nl
     [''---'',
      ''type: finance_log'',
      ''status: active'',
      ''created: 2025-11-03'',
      ''---'',
      '''',
      ''# Financial Log: November 2025'',
      '''',
      ''| Date | Type | Category | Description | Amount | Currency |'',
      ''| :--- | :--- | :--- | :--- | :--- | :--- |'',
      ''| 2025-11-03 09:30 | Expense | General | pen | 10 | USD |'',
      ''| 2025-11-03 09:31 | Expense | General | book | 20 | USD |'',
      ''| 2025-11-03 09:32 | Expense | General | gift | 10 | USD |''] @ [CHR 0x0A]"

section \<open>Rendered rows and well-formed cells\<close>

text \<open>
  Both agents write a table row as \<open>| v1 | v2 | ... |\<close>. A cell is well formed
  when it comes back from the table as it went in: it is not empty, has no white space at
  its ends, and holds no \<open>|\<close>, line feed or carriage return.
\<close>

definition row_of :: "string list \<Rightarrow> string" where
  "row_of vs = ''|'' @ concat (map (\<lambda>v. '' '' @ v @ '' |'') vs)"

definition wf_cell :: "string \<Rightarrow> bool" where
  "wf_cell v =
     (v \<noteq> [] \<and> \<not> isspace (hd v) \<and> \<not> isspace (last v) \<and> CHR ''|'' \<notin> set v \<and>
      CHR 0x0A \<notin> set v \<and> CHR 0x0D \<notin> set v)"








section \<open>Rows of the habit tracker\<close>

text \<open>
  The date and habit of a table line, as the update loop of \<open>log_habit\<close> reads them:
  the first two cells of a line that begins with \<open>|\<close>.
\<close>

definition row_key :: "string \<Rightarrow> (string \<times> string) option" where
  "row_key line =
     (if startswith line ''|'' then
        (case cells line of d # h # _ \<Rightarrow> Some (d, h) | _ \<Rightarrow> None)
      else None)"

text \<open>
  A cell of the tracker is plain when it is a well-formed cell that holds no line
  boundary and not the word \<open>Date\<close>, by which the update loop knows the header. The
  facts about the update loop are stated for calls whose date is made of digits and
  dashes, as \<open>%Y-%m-%d\<close> gives it, and whose habit and status are plain cells in ASCII.
\<close>

definition habit_cell :: "string \<Rightarrow> bool" where
  "habit_cell v = (wf_cell v \<and> list_all (\<lambda>c. \<not> is_linebreak c) v \<and> \<not> contains ''Date'' v)"

definition date_str_ok :: "string \<Rightarrow> bool" where
  "date_str_ok d = (d \<noteq> [] \<and> list_all (\<lambda>c. isdigit c \<or> c = CHR ''-'') d)"

fun wf_habit_call :: "string \<times> string \<times> string \<Rightarrow> bool" where
  "wf_habit_call (date_str, habit, status) =
     (date_str_ok date_str \<and> habit_cell habit \<and> isascii habit \<and>
      habit_cell status \<and> isascii status)"

text \<open>
  The tracker as a list of rows, each row the list of its four cells: the text of the
  file that holds them, a blank line before each row as \<open>log_habit\<close> appends it.
\<close>

definition tracker_lines :: "string list" where
  "tracker_lines =
     [''# Habit Tracker '' @ [CHR 0xF0, CHR 0x9F, CHR 0x8F, CHR 0x83], [],
      ''| Date | Habit | Status | Coach Comment |'',
      ''| :--- | :--- | :--- | :--- |'']"

definition row_lines :: "string list list \<Rightarrow> string list" where
  "row_lines rs = concat (map (\<lambda>r. [[], row_of r]) rs)"

definition tracker_text :: "string list list \<Rightarrow> string" where
  "tracker_text rs = join_nl (tracker_lines @ row_lines rs) @ [CHR 0x0A]"

definition good_row :: "string list \<Rightarrow> bool" where
  "good_row r = (length r = 4 \<and> date_str_ok (r ! 0) \<and> list_all habit_cell r)"

text \<open>Update or append on the list of rows: the first row of the same key is replaced.\<close>

fun replace_first :: "string list \<Rightarrow> string list list \<Rightarrow> string list list option" where
  "replace_first new [] = None"
| "replace_first new (r # rs) =
     (if take 2 r = take 2 new then Some (new # rs)
      else map_option ((#) r) (replace_first new rs))"

definition upsert :: "string list \<Rightarrow> string list list \<Rightarrow> string list list" where
  "upsert new rs = (case replace_first new rs of Some rs' \<Rightarrow> rs' | None \<Rightarrow> rs @ [new])"






text \<open>One day on which a habit is logged as done and then as missed.\<close>

definition done_then_missed :: "string \<Rightarrow> (string \<times> string \<times> string) list" where
  "done_then_missed habit = [(''2025-11-01'', habit, ''Done''), (''2025-11-01'', habit, ''Missed'')]"

section \<open>Facts about the string operations\<close>

lemma startswith_iff: "startswith s p \<longleftrightarrow> (\<exists>r. s = p @ r)"
  unfolding startswith_def
  by (metis append_eq_conv_conj append_take_drop_id)

lemma startswith_Nil [simp]: "startswith s []"
  by (simp add: startswith_def)

lemma startswith_Cons_Cons [simp]: "startswith (x # s) (y # p) \<longleftrightarrow> x = y \<and> startswith s p"
  by (simp add: startswith_def)

lemma startswith_Nil_left [simp]: "startswith [] p \<longleftrightarrow> p = []"
  by (auto simp: startswith_def)

lemma contains_iff: "contains n s \<longleftrightarrow> (\<exists>a b. s = a @ n @ b)"
proof (induction s)
  case Nil
  then show ?case by auto
next
  case (Cons x xs)
  show ?case
  proof
    assume "contains n (x # xs)"
    then consider "startswith (x # xs) n" | "contains n xs" by auto
    then show "\<exists>a b. x # xs = a @ n @ b"
    proof cases
      case 1
      then obtain r where "x # xs = n @ r" by (auto simp: startswith_iff)
      then have "x # xs = [] @ n @ r" by simp
      then show ?thesis by blast
    next
      case 2
      then obtain a b where "xs = a @ n @ b" using Cons.IH by blast
      then have "x # xs = (x # a) @ n @ b" by simp
      then show ?thesis by blast
    qed
  next
    assume "\<exists>a b. x # xs = a @ n @ b"
    then obtain a b where ab: "x # xs = a @ n @ b" by blast
    show "contains n (x # xs)"
    proof (cases a)
      case Nil
      with ab have "startswith (x # xs) n" by (auto simp: startswith_iff)
      then show ?thesis by simp
    next
      case (Cons y ys)
      with ab have "xs = ys @ n @ b" by simp
      then have "contains n xs" using Cons.IH by blast
      then show ?thesis by simp
    qed
  qed
qed

section \<open>Facts about the loops\<close>



lemma find_match_step:
  "find_match c n i (l # ls) m =
     (if skipped l then find_match c n (Suc i) ls m
      else if matches c n l then find_match c n (Suc i) ls (int i)
      else find_match c n (Suc i) ls m)"
  by (simp add: matches_def Let_def)

lemma find_match_none:
  "\<forall>l\<in>set ls. skipped l \<or> \<not> matches c n l \<Longrightarrow> find_match c n i ls m = m"
  by (induction ls arbitrary: i m) (auto simp: find_match_step simp del: find_match.simps(2))

lemma find_match_last:
  "j < length ls \<Longrightarrow> \<not> skipped (ls ! j) \<Longrightarrow> matches c n (ls ! j) \<Longrightarrow>
   \<forall>l\<in>set (drop (Suc j) ls). skipped l \<or> \<not> matches c n l \<Longrightarrow>
   find_match c n i ls m = int (i + j)"
proof (induction ls arbitrary: i j m)
  case Nil
  then show ?case by simp
next
  case (Cons l ls)
  show ?case
  proof (cases j)
    case 0
    with Cons.prems show ?thesis
      by (simp add: find_match_step find_match_none del: find_match.simps(2))
  next
    case (Suc j')
    with Cons.prems have "find_match c n (Suc i) ls m' = int (Suc i + j')" for m'
      by (intro Cons.IH) auto
    with Suc show ?thesis by (simp add: find_match_step del: find_match.simps(2))
  qed
qed

lemma isdigit_of_char: "isdigit c \<Longrightarrow> 48 \<le> (of_char c :: nat) \<and> (of_char c :: nat) \<le> 57"
  by (auto simp: isdigit_def)

lemma lower_char_number:
  assumes "isdigit c \<or> c = CHR ''.''"
  shows "lower_char x = c \<longleftrightarrow> x = c"
proof -
  from assms have c: "(of_char c :: nat) < 65" using isdigit_of_char by fastforce
  show ?thesis
  proof (cases "65 \<le> (of_char x :: nat) \<and> (of_char x :: nat) \<le> 90")
    case True
    then have "(of_char (lower_char x) :: nat) = of_char x + 32"
      by (simp add: lower_char_def Let_def)
    with True c show ?thesis by auto
  next
    case False
    then have "lower_char x = x" by (auto simp: lower_char_def Let_def)
    then show ?thesis by simp
  qed
qed

lemma startswith_lower_number:
  "\<forall>c\<in>set n. isdigit c \<or> c = CHR ''.'' \<Longrightarrow> startswith (lower s) n \<longleftrightarrow> startswith s n"
proof (induction n arbitrary: s)
  case Nil
  then show ?case by simp
next
  case (Cons c n)
  show ?case
  proof (cases s)
    case Nil
    then show ?thesis by (simp add: lower_def)
  next
    case (Cons x xs)
    have "lower (x # xs) = lower_char x # lower xs" by (simp add: lower_def)
    with Cons Cons.prems Cons.IH[of xs] show ?thesis
      by (simp add: lower_char_number)
  qed
qed

lemma contains_lower_number:
  "\<forall>c\<in>set n. isdigit c \<or> c = CHR ''.'' \<Longrightarrow> contains n (lower s) \<longleftrightarrow> contains n s"
proof (induction s)
  case Nil
  then show ?case by (simp add: lower_def)
next
  case (Cons x xs)
  have "lower (x # xs) = lower_char x # lower xs" by (simp add: lower_def)
  moreover have "startswith (lower (x # xs)) n \<longleftrightarrow> startswith (x # xs) n"
    using Cons.prems by (rule startswith_lower_number)
  ultimately show ?case using Cons by (metis contains.simps(2))
qed

lemma undo_row_not_skipped: "undo_row l \<Longrightarrow> \<not> skipped l"
  by (cases l) (auto simp: undo_row_def skipped_def)

lemma takeWhile_isdigit_chars: "\<forall>c\<in>set (takeWhile isdigit xs). isdigit c \<or> c = CHR ''.''"
  by (auto dest: set_takeWhileD)

lemma number_chars_append:
  "isdigit d \<Longrightarrow>
   \<forall>c\<in>set (takeWhile isdigit xs @ CHR ''.'' # d # takeWhile isdigit ys). isdigit c \<or> c = CHR ''.''"
  by (auto dest: set_takeWhileD)

lemma re_search_number_chars:
  assumes "re_search_number s = Some n"
  shows "\<forall>c\<in>set n. isdigit c \<or> c = CHR ''.''" and "n \<noteq> []"
proof -
  define r where "r = dropWhile (\<lambda>c. \<not> isdigit c) s"
  define rest where "rest = dropWhile isdigit r"
  from assms have "r \<noteq> []"
    unfolding re_search_number_def Let_def r_def by (auto split: if_splits)
  moreover from this have "isdigit (hd r)"
    unfolding r_def using hd_dropWhile[of "\<lambda>c. \<not> isdigit c" s] by simp
  ultimately have digits: "takeWhile isdigit r \<noteq> []"
    by (cases r) auto
  have shape: "n = takeWhile isdigit r \<or>
        (\<exists>d t. isdigit d \<and> n = takeWhile isdigit r @ CHR ''.'' # d # takeWhile isdigit t)"
  proof (cases "r = []")
    case True
    with assms show ?thesis
      unfolding re_search_number_def Let_def r_def by simp
  next
    case False
    with assms have "(case rest of
           c # d # t \<Rightarrow>
             if c = CHR ''.'' \<and> isdigit d then Some (takeWhile isdigit r @ c # takeWhile isdigit (d # t))
             else Some (takeWhile isdigit r)
         | _ \<Rightarrow> Some (takeWhile isdigit r)) = Some n"
      unfolding re_search_number_def Let_def r_def rest_def by (simp only: if_False)
    then show ?thesis
      by (auto split: list.splits if_splits)
  qed
  then show "\<forall>c\<in>set n. isdigit c \<or> c = CHR ''.''"
    using takeWhile_isdigit_chars number_chars_append by metis
  from shape digits show "n \<noteq> []" by auto
qed

lemma matches_verbatim:
  "matches clean (re_search_number clean) line \<longleftrightarrow>
     (\<exists>n. re_search_number clean = Some n \<and> contains n line) \<or> contains clean (lower line)"
  by (cases "re_search_number clean")
     (auto simp: matches_def contains_lower_number[OF re_search_number_chars(1)]
        re_search_number_chars(2))


text \<open>
  What the scan of \<open>delete_specific_transaction\<close> decides, on a file and a criteria
  in ASCII: nothing is deleted when every line is skipped or does not match, and
  otherwise the last line that is not skipped and matches is the one deleted.
\<close>

lemma delete_specific_transaction_scan:
  assumes "lines = splitlines (read_text raw)"
    and "clean = clean_criteria criteria"
    and "number = re_search_number clean"
    and "isascii raw" and "isascii criteria"
  shows "\<forall>l\<in>set lines. skipped l \<or> \<not> matches clean number l \<Longrightarrow>
         delete_specific_transaction (Some raw) criteria =
           (''No matching transaction found for '' @ [CHR 0x27] @ criteria @ [CHR 0x27] @ ''.'',
            Some raw)"
    and "k < length lines \<Longrightarrow> \<not> skipped (lines ! k) \<Longrightarrow> matches clean number (lines ! k) \<Longrightarrow>
         \<forall>l\<in>set (drop (Suc k) lines). skipped l \<or> \<not> matches clean number l \<Longrightarrow>
         delete_specific_transaction (Some raw) criteria =
           (''Successfully deleted transaction: '' @ lines ! k,
            Some (join_nl (del_at k lines) @ [CHR 0x0A]))"
proof -
  assume "\<forall>l\<in>set lines. skipped l \<or> \<not> matches clean number l"
  then have "find_match clean number 0 lines (- 1) = - 1" by (rule find_match_none)
  then show "delete_specific_transaction (Some raw) criteria =
           (''No matching transaction found for '' @ [CHR 0x27] @ criteria @ [CHR 0x27] @ ''.'',
            Some raw)"
    using assms(1-3) by (simp add: delete_specific_transaction_def Let_def)
next
  assume "k < length lines" "\<not> skipped (lines ! k)" "matches clean number (lines ! k)"
    "\<forall>l\<in>set (drop (Suc k) lines). skipped l \<or> \<not> matches clean number l"
  then have "find_match clean number 0 lines (- 1) = int (0 + k)"
    by (rule find_match_last)
  then show "delete_specific_transaction (Some raw) criteria =
           (''Successfully deleted transaction: '' @ lines ! k,
            Some (join_nl (del_at k lines) @ [CHR 0x0A]))"
    using assms(1-3) by (simp add: delete_specific_transaction_def Let_def)
qed


section \<open>Facts about stripping, splitting and rendered rows\<close>


lemma split_on_append:
  "c \<notin> set xs \<Longrightarrow> split_on c (xs @ c # ys) = xs # split_on c ys"
  by (induction xs) auto

lemma split_on_no_sep: "c \<notin> set xs \<Longrightarrow> split_on c xs = [xs]"
  by (induction xs) auto

lemma strip_Nil [simp]: "strip [] = []"
  by (simp add: strip_def)

lemma strip_space_Cons [simp]: "isspace c \<Longrightarrow> strip (c # s) = strip s"
  by (simp add: strip_def)

lemma strip_space_snoc [simp]:
  assumes "isspace c"
  shows "strip (s @ [c]) = strip s"
proof (cases "\<forall>x\<in>set s. isspace x")
  case True
  then have d1: "dropWhile isspace s = []"
    by simp
  from True assms have d2: "dropWhile isspace (s @ [c]) = []"
    by simp
  show ?thesis by (simp only: strip_def d1 d2)
next
  case False
  then have "dropWhile isspace (s @ [c]) = dropWhile isspace s @ [c]"
    by (simp add: dropWhile_append)
  with assms show ?thesis by (simp add: strip_def)
qed

lemma strip_id:
  assumes "s \<noteq> []" "\<not> isspace (hd s)" "\<not> isspace (last s)"
  shows "strip s = s"
proof -
  from assms have "dropWhile isspace s = s" by (cases s) auto
  moreover from assms have "dropWhile isspace (rev s) = rev s"
    by (cases "rev s") (auto simp: last_rev hd_rev)
  ultimately show ?thesis by (simp add: strip_def)
qed


lemma startswith_append_sep:
  assumes "c \<notin> set n"
  shows "startswith (xs @ c # ys) n \<longleftrightarrow> startswith xs n"
proof
  assume "startswith (xs @ c # ys) n"
  then obtain r where "xs @ c # ys = n @ r" by (auto simp: startswith_iff)
  then obtain us where "(xs = n @ us \<and> us @ c # ys = r) \<or> (xs @ us = n \<and> c # ys = us @ r)"
    by (auto simp: append_eq_append_conv2)
  then show "startswith xs n"
  proof
    assume "xs = n @ us \<and> us @ c # ys = r"
    then show ?thesis by (auto simp: startswith_iff)
  next
    assume a: "xs @ us = n \<and> c # ys = us @ r"
    show ?thesis
    proof (cases us)
      case Nil
      with a show ?thesis by (auto simp: startswith_iff)
    next
      case (Cons u us')
      with a have "c \<in> set n" by auto
      with assms show ?thesis by simp
    qed
  qed
next
  assume "startswith xs n"
  then show "startswith (xs @ c # ys) n" by (auto simp: startswith_iff)
qed

lemma contains_Nil_needle [simp]: "contains [] s"
  by (cases s) simp_all

lemma contains_sep:
  assumes "c \<notin> set n"
  shows "contains n (xs @ c # ys) \<longleftrightarrow> contains n xs \<or> contains n ys"
proof (induction xs)
  case Nil
  show ?case
  proof (cases n)
    case Nil
    then show ?thesis by simp
  next
    case (Cons a n')
    with assms show ?thesis by auto
  qed
next
  case (Cons x xs)
  have "startswith ((x # xs) @ c # ys) n \<longleftrightarrow> startswith (x # xs) n"
    using assms by (rule startswith_append_sep)
  with Cons show ?case by auto
qed


lemma habit_row_eq: "habit_row d h s c = row_of [d, h, s, c]"
  by (simp add: habit_row_def row_of_def)

lemma isspace_space [simp]: "isspace CHR '' ''"
  by (simp add: isspace_def)

lemma not_isspace_bar [simp]: "\<not> isspace CHR ''|''"
  by (simp add: isspace_def)

lemma strip_pad: "strip ('' '' @ v @ '' '') = strip v"
proof -
  have "strip ('' '' @ v @ '' '') = strip ((CHR '' '' # v) @ [CHR '' ''])" by simp
  also have "\<dots> = strip (CHR '' '' # v)" by (rule strip_space_snoc) simp
  also have "\<dots> = strip v" by simp
  finally show ?thesis .
qed

lemma split_on_cells:
  "\<forall>v\<in>set vs. CHR ''|'' \<notin> set v \<Longrightarrow>
   split_on CHR ''|'' (concat (map (\<lambda>v. '' '' @ v @ '' |'') vs)) = map (\<lambda>v. '' '' @ v @ '' '') vs @ [[]]"
proof (induction vs)
  case Nil
  then show ?case by simp
next
  case (Cons v vs)
  have "concat (map (\<lambda>v. '' '' @ v @ '' |'') (v # vs))
          = ('' '' @ v @ '' '') @ CHR ''|'' # concat (map (\<lambda>v. '' '' @ v @ '' |'') vs)"
    by simp
  moreover have "CHR ''|'' \<notin> set ('' '' @ v @ '' '')" using Cons.prems by simp
  then have "split_on CHR ''|'' (('' '' @ v @ '' '') @ CHR ''|'' # concat (map (\<lambda>v. '' '' @ v @ '' |'') vs))
          = ('' '' @ v @ '' '') # split_on CHR ''|'' (concat (map (\<lambda>v. '' '' @ v @ '' |'') vs))"
    by (rule split_on_append)
  ultimately have "split_on CHR ''|'' (concat (map (\<lambda>v. '' '' @ v @ '' |'') (v # vs)))
          = ('' '' @ v @ '' '') # split_on CHR ''|'' (concat (map (\<lambda>v. '' '' @ v @ '' |'') vs))"
    by (simp only:)
  with Cons show ?case by simp
qed

lemma cells_row_of:
  assumes "\<forall>v\<in>set vs. CHR ''|'' \<notin> set v"
  shows "cells (row_of vs) = filter (\<lambda>v. v \<noteq> []) (map strip vs)"
proof -
  have "split_on CHR ''|'' (row_of vs) = [] # map (\<lambda>v. '' '' @ v @ '' '') vs @ [[]]"
    using split_on_cells[OF assms] by (simp add: row_of_def)
  then have "cells (row_of vs) = filter (\<lambda>v. v \<noteq> []) (map (\<lambda>v. strip ('' '' @ v @ '' '')) vs)"
    by (simp add: cells_def comp_def)
  then show ?thesis by (simp only: strip_pad)
qed

lemma wf_cell_strip: "wf_cell v \<Longrightarrow> strip v = v"
  by (simp add: wf_cell_def strip_id)

lemma cells_row_of_wf:
  assumes "\<forall>v\<in>set vs. wf_cell v"
  shows "cells (row_of vs) = vs"
proof -
  from assms have "\<forall>v\<in>set vs. CHR ''|'' \<notin> set v" by (simp add: wf_cell_def)
  then have "cells (row_of vs) = filter (\<lambda>v. v \<noteq> []) (map strip vs)" by (rule cells_row_of)
  also have "map strip vs = vs" using assms by (simp add: wf_cell_strip map_idI)
  also have "filter (\<lambda>v. v \<noteq> []) vs = vs" using assms by (simp add: wf_cell_def)
  finally show ?thesis .
qed

lemma contains_cells:
  assumes "CHR '' '' \<notin> set n" "CHR ''|'' \<notin> set n" "n \<noteq> []"
  shows "contains n (concat (map (\<lambda>v. '' '' @ v @ '' |'') vs)) \<longleftrightarrow> (\<exists>v\<in>set vs. contains n v)"
proof (induction vs)
  case Nil
  with assms show ?case by simp
next
  case (Cons v vs)
  let ?rest = "concat (map (\<lambda>v. '' '' @ v @ '' |'') vs)"
  have "contains n (concat (map (\<lambda>v. '' '' @ v @ '' |'') (v # vs)))
          = contains n ([] @ CHR '' '' # (v @ CHR '' '' # ([] @ CHR ''|'' # ?rest)))"
    by simp
  also have "\<dots> \<longleftrightarrow> contains n [] \<or> contains n (v @ CHR '' '' # ([] @ CHR ''|'' # ?rest))"
    using assms(1) by (rule contains_sep)
  also have "contains n (v @ CHR '' '' # ([] @ CHR ''|'' # ?rest))
               \<longleftrightarrow> contains n v \<or> contains n ([] @ CHR ''|'' # ?rest)"
    using assms(1) by (rule contains_sep)
  also have "contains n ([] @ CHR ''|'' # ?rest) \<longleftrightarrow> contains n [] \<or> contains n ?rest"
    using assms(2) by (rule contains_sep)
  finally show ?case using Cons assms(3) by simp
qed

lemma contains_row_of:
  assumes "CHR '' '' \<notin> set n" "CHR ''|'' \<notin> set n" "n \<noteq> []"
  shows "contains n (row_of vs) \<longleftrightarrow> (\<exists>v\<in>set vs. contains n v)"
proof -
  have "contains n (row_of vs) = contains n ([] @ CHR ''|'' # concat (map (\<lambda>v. '' '' @ v @ '' |'') vs))"
    by (simp add: row_of_def)
  also have "\<dots> \<longleftrightarrow> contains n [] \<or> contains n (concat (map (\<lambda>v. '' '' @ v @ '' |'') vs))"
    using assms(2) by (rule contains_sep)
  finally show ?thesis using contains_cells[OF assms] assms(3) by simp
qed

lemma row_of_ends: "row_of vs \<noteq> [] \<and> hd (row_of vs) = CHR ''|'' \<and> last (row_of vs) = CHR ''|''"
  by (induction vs rule: rev_induct) (simp_all add: row_of_def)

lemma strip_row_of: "strip (row_of vs) = row_of vs"
  using row_of_ends[of vs] by (intro strip_id) simp_all

lemma startswith_row_of: "startswith (row_of vs) ''|''"
  by (simp add: row_of_def)

section \<open>Facts about the parser\<close>

lemma read_text_id: "CHR 0x0D \<notin> set s \<Longrightarrow> read_text s = s"
  by (induction s) auto



















section \<open>Facts about joined lines\<close>


lemma splitlines_line:
  "\<forall>c\<in>set l. \<not> is_linebreak c \<Longrightarrow> splitlines (l @ CHR 0x0A # rest) = l # splitlines rest"
proof (induction l)
  case Nil
  have "is_linebreak (CHR 0x0A)" by (simp add: is_linebreak_def)
  then show ?case by simp
next
  case (Cons x l)
  then have "\<not> is_linebreak x" by simp
  moreover from this have "x \<noteq> CHR 0x0D" by (auto simp: is_linebreak_def)
  ultimately show ?case using Cons by simp
qed

lemma splitlines_join:
  "ls \<noteq> [] \<Longrightarrow> \<forall>l\<in>set ls. \<forall>c\<in>set l. \<not> is_linebreak c \<Longrightarrow> splitlines (join_nl ls @ [CHR 0x0A]) = ls"
proof (induction ls rule: join_nl.induct)
  case 1
  then show ?case by simp
next
  case (2 l)
  then have "splitlines (l @ CHR 0x0A # []) = l # splitlines []" by (intro splitlines_line) simp
  then show ?case by simp
next
  case (3 l v va)
  then have "splitlines (l @ CHR 0x0A # (join_nl (v # va) @ [CHR 0x0A]))
               = l # splitlines (join_nl (v # va) @ [CHR 0x0A])"
    by (intro splitlines_line) simp
  with 3 show ?case by simp
qed

lemma set_join_nl: "set (join_nl ls) \<subseteq> (\<Union>l\<in>set ls. set l) \<union> {CHR 0x0A}"
  by (induction ls rule: join_nl.induct) auto

lemma read_text_join:
  assumes "\<forall>l\<in>set ls. CHR 0x0D \<notin> set l"
  shows "read_text (join_nl ls @ [CHR 0x0A]) = join_nl ls @ [CHR 0x0A]"
proof -
  have "CHR 0x0D \<notin> set (join_nl ls @ [CHR 0x0A])"
    using assms set_join_nl[of ls] by auto
  then show ?thesis by (rule read_text_id)
qed

lemma join_nl_hd:
  assumes "ls \<noteq> []" "hd ls \<noteq> []"
  shows "join_nl ls \<noteq> [] \<and> hd (join_nl ls) = hd (hd ls)"
proof (cases ls)
  case Nil
  with assms show ?thesis by simp
next
  case (Cons l ls')
  with assms show ?thesis by (cases ls') auto
qed

lemma join_nl_last:
  "ls \<noteq> [] \<Longrightarrow> last ls \<noteq> [] \<Longrightarrow> join_nl ls \<noteq> [] \<and> last (join_nl ls) = last (last ls)"
proof (induction ls rule: join_nl.induct)
  case 1
  then show ?case by simp
next
  case (2 l)
  then show ?case by simp
next
  case (3 l v va)
  then have "join_nl (v # va) \<noteq> [] \<and> last (join_nl (v # va)) = last (last (v # va))" by simp
  then show ?case by simp
qed

lemma strip_join:
  assumes "ls \<noteq> []" "hd ls \<noteq> []" "last ls \<noteq> []"
    and "\<not> isspace (hd (hd ls))" "\<not> isspace (last (last ls))"
  shows "strip (join_nl ls) = join_nl ls"
  using join_nl_hd[OF assms(1,2)] join_nl_last[OF assms(1,3)] assms(4,5)
  by (intro strip_id) simp_all

lemma linebreak_not_CR: "\<not> is_linebreak c \<Longrightarrow> c \<noteq> CHR 0x0D \<and> c \<noteq> CHR 0x0A"
  by (auto simp: is_linebreak_def)

section \<open>Facts about the habit tracker\<close>

lemma tracker_header_eq: "tracker_header = tracker_text []"
  by (simp add: tracker_header_def tracker_text_def tracker_lines_def row_lines_def)

lemma contains_set: "contains n s \<Longrightarrow> set n \<subseteq> set s"
  by (auto simp: contains_iff)

lemma isdigit_values: "isdigit c \<Longrightarrow> c \<in> set ''0123456789''"
  by (simp add: isdigit_def)

lemma date_char:
  assumes "isdigit c \<or> c = CHR ''-''"
  shows "\<not> isspace c" "c \<noteq> CHR ''|''" "\<not> is_linebreak c" "c \<noteq> CHR ''D''" "c \<noteq> CHR '':''"
    "c \<noteq> CHR 0x0A" "c \<noteq> CHR 0x0D"
  using assms by (auto simp: isdigit_def isspace_def is_linebreak_def)

lemma date_str_ok_cell:
  assumes "date_str_ok d"
  shows "habit_cell d" and "\<not> startswith d '':---''"
proof -
  from assms have ne: "d \<noteq> []" and ch: "\<forall>c\<in>set d. isdigit c \<or> c = CHR ''-''"
    by (simp_all add: date_str_ok_def list_all_iff)
  have dc: "\<not> isspace c" "c \<noteq> CHR ''|''" "\<not> is_linebreak c" "c \<noteq> CHR ''D''" "c \<noteq> CHR '':''"
    "c \<noteq> CHR 0x0A" "c \<noteq> CHR 0x0D" if "c \<in> set d" for c
  proof -
    from ch that have "isdigit c \<or> c = CHR ''-''" by (rule bspec)
    then show "\<not> isspace c" "c \<noteq> CHR ''|''" "\<not> is_linebreak c" "c \<noteq> CHR ''D''" "c \<noteq> CHR '':''"
      "c \<noteq> CHR 0x0A" "c \<noteq> CHR 0x0D"
      by (rule date_char)+
  qed
  from ne have hd: "hd d \<in> set d" and last: "last d \<in> set d" by simp_all
  have "CHR ''D'' \<notin> set d"
  proof
    assume "CHR ''D'' \<in> set d"
    then have "CHR ''D'' \<noteq> CHR ''D''" by (rule dc(4))
    then show False by simp
  qed
  moreover have "CHR ''D'' \<in> set ''Date''" by simp
  ultimately have nd: "\<not> contains ''Date'' d"
    using contains_set[of "''Date''" d] by (meson subsetD)
  have b: "CHR ''|'' \<notin> set d"
  proof
    assume "CHR ''|'' \<in> set d"
    then have "CHR ''|'' \<noteq> CHR ''|''" by (rule dc(2))
    then show False by simp
  qed
  have n: "CHR 0x0A \<notin> set d"
  proof
    assume "CHR 0x0A \<in> set d"
    then have "CHR 0x0A \<noteq> CHR 0x0A" by (rule dc(6))
    then show False by simp
  qed
  have r: "CHR 0x0D \<notin> set d"
  proof
    assume "CHR 0x0D \<in> set d"
    then have "CHR 0x0D \<noteq> CHR 0x0D" by (rule dc(7))
    then show False by simp
  qed
  have lb: "list_all (\<lambda>c. \<not> is_linebreak c) d"
    unfolding list_all_iff using dc(3) by (rule ballI)
  show "habit_cell d"
    unfolding habit_cell_def wf_cell_def
    using ne dc(1)[OF hd] dc(1)[OF last] b n r lb nd by (intro conjI)
  from ne obtain x xs where d: "d = x # xs" by (cases d) auto
  then have "x \<noteq> CHR '':''" using dc(5)[of x] by simp
  then show "\<not> startswith d '':---''" unfolding d by simp
qed

lemma habit_cell_wf: "habit_cell v \<Longrightarrow> wf_cell v"
  by (simp add: habit_cell_def)

lemma good_row_cells:
  assumes "good_row r"
  obtains d h s c where "r = [d, h, s, c]" "date_str_ok d" "habit_cell d" "habit_cell h"
    "habit_cell s" "habit_cell c"
proof -
  from assms have "length r = 4" by (simp add: good_row_def)
  then obtain d h s c where r: "r = [d, h, s, c]"
    by (auto simp: length_Suc_conv eval_nat_numeral)
  from assms have "date_str_ok d" "habit_cell d" "habit_cell h" "habit_cell s" "habit_cell c"
    unfolding r good_row_def by simp_all
  with r show ?thesis by (rule that)
qed

lemma row_of_not_separator:
  assumes "\<not> startswith d '':---''"
  shows "\<not> startswith (row_of (d # vs)) ''| :---''"
proof -
  have "row_of (d # vs) = ''| '' @ d @ '' |'' @ concat (map (\<lambda>v. '' '' @ v @ '' |'') vs)"
    by (simp add: row_of_def)
  moreover have "startswith (d @ CHR '' '' # rest) '':---'' \<longleftrightarrow> startswith d '':---''" for rest
    by (rule startswith_append_sep) simp
  ultimately show ?thesis using assms by simp
qed

lemma good_row_line:
  assumes "good_row r"
  shows "startswith (row_of r) ''|''" "\<not> startswith (row_of r) ''| :---''"
    "\<not> contains ''Date'' (row_of r)" "cells (row_of r) = r"
    "\<forall>c\<in>set (row_of r). \<not> is_linebreak c" "row_key (row_of r) = Some (r ! 0, r ! 1)"
proof -
  from assms obtain d h s c where r: "r = [d, h, s, c]" and d: "date_str_ok d"
    and cs: "habit_cell d" "habit_cell h" "habit_cell s" "habit_cell c"
    by (rule good_row_cells)
  show 1: "startswith (row_of r) ''|''" by (rule startswith_row_of)
  show "\<not> startswith (row_of r) ''| :---''"
    unfolding r using date_str_ok_cell(2)[OF d] by (rule row_of_not_separator)
  have "contains ''Date'' (row_of r) \<longleftrightarrow> (\<exists>v\<in>set r. contains ''Date'' v)"
    by (rule contains_row_of) simp_all
  with cs show "\<not> contains ''Date'' (row_of r)" by (simp add: r habit_cell_def)
  from cs have "\<forall>v\<in>set r. wf_cell v" by (simp add: r habit_cell_wf)
  then show 4: "cells (row_of r) = r" by (rule cells_row_of_wf)
  have "\<not> is_linebreak CHR '' ''" "\<not> is_linebreak CHR ''|''" by (simp_all add: is_linebreak_def)
  with cs show "\<forall>c\<in>set (row_of r). \<not> is_linebreak c"
    by (auto simp: r row_of_def habit_cell_def list_all_iff)
  from 1 4 show "row_key (row_of r) = Some (r ! 0, r ! 1)"
    by (simp add: row_key_def r)
qed


lemma row_lines_Nil [simp]: "row_lines [] = []"
  by (simp add: row_lines_def)

lemma row_lines_Cons [simp]: "row_lines (r # rs) = [] # row_of r # row_lines rs"
  by (simp add: row_lines_def)

lemma row_lines_snoc [simp]: "row_lines (rs @ [r]) = row_lines rs @ [[], row_of r]"
  by (simp add: row_lines_def)

lemma update_scan_blank:
  "update_scan d h n ([] # rest) = map_option ((#) []) (update_scan d h n rest)"
  by simp

lemma update_scan_row:
  assumes "good_row r"
  shows "update_scan d h n (row_of r # rest) =
           (if take 2 r = [d, h] then Some (n # rest)
            else map_option ((#) (row_of r)) (update_scan d h n rest))"
proof -
  from assms obtain d' h' s' c' where r: "r = [d', h', s', c']"
    by (rule good_row_cells)
  note l = good_row_line[OF assms]
  have "length (cells (row_of r)) \<ge> 4" "cells (row_of r) ! 0 = d'" "cells (row_of r) ! 1 = h'"
    unfolding l(4) by (simp_all add: r)
  moreover have "take 2 r = [d, h] \<longleftrightarrow> d' = d \<and> h' = h"
    by (simp add: r)
  ultimately show ?thesis
    using l(1,2,3) by (simp add: Let_def)
qed

lemma update_scan_rows:
  assumes "list_all good_row rs" "take 2 new = [d, h]"
  shows "update_scan d h (row_of new) (row_lines rs) = map_option row_lines (replace_first new rs)"
  using assms(1)
proof (induction rs)
  case Nil
  then show ?case by simp
next
  case (Cons r rs)
  then have g: "good_row r" and IH: "update_scan d h (row_of new) (row_lines rs)
      = map_option row_lines (replace_first new rs)"
    by simp_all
  show ?case
    by (simp only: row_lines_Cons update_scan_blank update_scan_row[OF g] IH assms(2)
          replace_first.simps)
       (simp add: option.map_comp comp_def)
qed

lemma update_scan_header:
  "update_scan d h n (tracker_lines @ ls) = map_option ((@) tracker_lines) (update_scan d h n ls)"
proof -
  have "contains ''Date'' ''| Date | Habit | Status | Coach Comment |''"
    by code_simp
  then show ?thesis
    by (cases "update_scan d h n ls") (simp_all add: tracker_lines_def)
qed

lemma tracker_lines_last: "strip (last tracker_lines) \<noteq> []"
  by code_simp

lemma append_row_tracker:
  assumes "list_all good_row rs"
  shows "append_row (tracker_lines @ row_lines rs) line = tracker_lines @ row_lines rs @ [[], line]"
proof -
  have "strip (last (tracker_lines @ row_lines rs)) \<noteq> []"
  proof (cases rs rule: rev_cases)
    case Nil
    then show ?thesis using tracker_lines_last by simp
  next
    case (snoc rs' r)
    have "row_of r \<noteq> []" using row_of_ends[of r] by simp
    then show ?thesis by (simp add: snoc strip_row_of)
  qed
  moreover have "tracker_lines @ row_lines rs \<noteq> []" by (simp add: tracker_lines_def)
  ultimately show ?thesis by (simp add: append_row_def)
qed

lemma digit_chars: "k < 10 \<Longrightarrow> isdigit (char_of (48 + k))" for k :: nat
proof -
  have "list_all (\<lambda>k::nat. isdigit (char_of (48 + k))) [0..<10]"
    by code_simp
  then show "k < 10 \<Longrightarrow> isdigit (char_of (48 + k))"
    by (simp add: list_all_iff)
qed

lemma str_nat_digits: "c \<in> set (str_nat n) \<Longrightarrow> isdigit c"
proof (induction n arbitrary: c rule: str_nat.induct)
  case (1 n)
  show ?case
  proof (cases "n < 10")
    case True
    with 1(2) show ?thesis by (simp add: str_nat.simps[of n] digit_chars)
  next
    case False
    with 1 show ?thesis by (auto simp: str_nat.simps[of n] digit_chars)
  qed
qed

lemma str_nat_nonempty: "str_nat n \<noteq> []"
  by (simp add: str_nat.simps[of n])


lemma habit_cell_comment: "habit_cell (coach_comment n s)"
proof -
  have lit: "habit_cell ([CHR 0xE2, CHR 0x9A, CHR 0xA0, CHR 0xEF, CHR 0xB8, CHR 0x8F] @ '' Don''
               @ [CHR 0x27] @ ''t let this slide.'')" "habit_cell ''Keep pushing.''"
    by code_simp+
  let ?a = "[CHR 0xF0, CHR 0x9F, CHR 0x94, CHR 0xA5] @ '' ''"
  let ?b = "'' day streak!''"
  have dg: "\<not> isspace c" "c \<noteq> CHR ''|''" "\<not> is_linebreak c" "c \<noteq> CHR ''D''"
    "c \<noteq> CHR 0x0A" "c \<noteq> CHR 0x0D" if "c \<in> set (str_nat n)" for c
  proof -
    from that have "isdigit c \<or> c = CHR ''-''" by (simp add: str_nat_digits)
    then show "\<not> isspace c" "c \<noteq> CHR ''|''" "\<not> is_linebreak c" "c \<noteq> CHR ''D''"
      "c \<noteq> CHR 0x0A" "c \<noteq> CHR 0x0D"
      by (simp_all add: date_char)
  qed
  have ab: "list_all (\<lambda>c. c \<noteq> CHR ''|'' \<and> \<not> is_linebreak c \<and> c \<noteq> CHR ''D'' \<and> c \<noteq> CHR 0x0A
              \<and> c \<noteq> CHR 0x0D) (?a @ ?b)"
    by code_simp
  have all: "c \<noteq> CHR ''|'' \<and> \<not> is_linebreak c \<and> c \<noteq> CHR ''D'' \<and> c \<noteq> CHR 0x0A \<and> c \<noteq> CHR 0x0D"
    if "c \<in> set (?a @ str_nat n @ ?b)" for c
  proof -
    from that have "c \<in> set (?a @ ?b) \<or> c \<in> set (str_nat n)" by auto
    then show ?thesis
    proof
      assume "c \<in> set (?a @ ?b)"
      with ab show ?thesis unfolding list_all_iff by (rule bspec)
    next
      assume "c \<in> set (str_nat n)"
      then show ?thesis by (simp add: dg)
    qed
  qed
  have "CHR ''D'' \<notin> set (?a @ str_nat n @ ?b)" using all by blast
  moreover have "CHR ''D'' \<in> set ''Date''" by simp
  ultimately have nd: "\<not> contains ''Date'' (?a @ str_nat n @ ?b)"
    using contains_set[of "''Date''" "?a @ str_nat n @ ?b"] by (meson subsetD)
  have ends: "\<not> isspace (hd (?a @ str_nat n @ ?b))" "\<not> isspace (last (?a @ str_nat n @ ?b))"
    by (simp_all add: isspace_def)
  have "CHR ''|'' \<notin> set (?a @ str_nat n @ ?b)" "CHR 0x0A \<notin> set (?a @ str_nat n @ ?b)"
    "CHR 0x0D \<notin> set (?a @ str_nat n @ ?b)"
    using all by blast+
  moreover have "list_all (\<lambda>c. \<not> is_linebreak c) (?a @ str_nat n @ ?b)"
    unfolding list_all_iff using all by blast
  ultimately have "habit_cell (?a @ str_nat n @ ?b)"
    unfolding habit_cell_def wf_cell_def using nd ends by simp
  with lit show ?thesis by (simp add: coach_comment_def)
qed

lemma tracker_lines_props:
  "tracker_lines \<noteq> []" "hd tracker_lines \<noteq> []" "\<not> isspace (hd (hd tracker_lines))"
  "last tracker_lines \<noteq> []" "\<not> isspace (last (last tracker_lines))"
  "list_all (\<lambda>l. list_all (\<lambda>c. \<not> is_linebreak c) l) tracker_lines"
  "map row_key tracker_lines = [None, None, Some (''Date'', ''Habit''), Some ('':---'', '':---'')]"
  by code_simp+

lemma tracker_rows_lines:
  assumes "list_all good_row rs"
  shows "tracker_lines @ row_lines rs \<noteq> []"
    "hd (tracker_lines @ row_lines rs) \<noteq> []"
    "\<not> isspace (hd (hd (tracker_lines @ row_lines rs)))"
    "last (tracker_lines @ row_lines rs) \<noteq> []"
    "\<not> isspace (last (last (tracker_lines @ row_lines rs)))"
    "\<forall>l\<in>set (tracker_lines @ row_lines rs). \<forall>c\<in>set l. \<not> is_linebreak c"
proof -
  note t = tracker_lines_props
  show "tracker_lines @ row_lines rs \<noteq> []" using t(1) by simp
  show "hd (tracker_lines @ row_lines rs) \<noteq> []" using t(1,2) by simp
  show "\<not> isspace (hd (hd (tracker_lines @ row_lines rs)))" using t(1,3) by simp
  have "last (tracker_lines @ row_lines rs) \<noteq> [] \<and> \<not> isspace (last (last (tracker_lines @ row_lines rs)))"
  proof (cases rs rule: rev_cases)
    case Nil
    then show ?thesis using t(4,5) by simp
  next
    case (snoc rs' r)
    then show ?thesis using row_of_ends[of r] by simp
  qed
  then show "last (tracker_lines @ row_lines rs) \<noteq> []"
    "\<not> isspace (last (last (tracker_lines @ row_lines rs)))" by simp_all
  have "\<forall>l\<in>set (row_lines rs). \<forall>c\<in>set l. \<not> is_linebreak c"
    using assms
  proof (induction rs)
    case Nil
    then show ?case by simp
  next
    case (Cons r rs)
    then have "good_row r" by simp
    then have "\<forall>c\<in>set (row_of r). \<not> is_linebreak c" by (rule good_row_line(5))
    with Cons show ?case by simp
  qed
  then show "\<forall>l\<in>set (tracker_lines @ row_lines rs). \<forall>c\<in>set l. \<not> is_linebreak c"
    using t(6) by (auto simp: list_all_iff)
qed

lemma tracker_text_read:
  assumes "list_all good_row rs"
  shows "read_text (tracker_text rs) = tracker_text rs"
    and "splitlines (tracker_text rs) = tracker_lines @ row_lines rs"
proof -
  note p = tracker_rows_lines[OF assms]
  from p(6) have "\<forall>l\<in>set (tracker_lines @ row_lines rs). CHR 0x0D \<notin> set l"
    using linebreak_not_CR by blast
  then show "read_text (tracker_text rs) = tracker_text rs"
    unfolding tracker_text_def by (rule read_text_join)
  show "splitlines (tracker_text rs) = tracker_lines @ row_lines rs"
    unfolding tracker_text_def using p(1,6) by (rule splitlines_join)
qed

lemma tracker_text_strip:
  assumes "list_all good_row rs"
  shows "strip (join_nl (tracker_lines @ row_lines rs)) @ [CHR 0x0A] = tracker_text rs"
  unfolding tracker_text_def
  using tracker_rows_lines(1-5)[OF assms] by (simp add: strip_join)

lemma replace_first_props:
  assumes "list_all good_row rs" "good_row new" "replace_first new rs = Some rs'"
  shows "list_all good_row rs'" "map (take 2) rs' = map (take 2) rs"
  using assms by (induction rs arbitrary: rs') (auto split: if_splits)

lemma replace_first_None: "replace_first new rs = None \<longleftrightarrow> take 2 new \<notin> set (map (take 2) rs)"
  by (induction rs) auto

lemma upsert_props:
  assumes "list_all good_row rs" "good_row new" "distinct (map (take 2) rs)"
  shows "list_all good_row (upsert new rs)" "distinct (map (take 2) (upsert new rs))"
proof -
  show "list_all good_row (upsert new rs)"
    using assms(1,2) replace_first_props(1)[OF assms(1,2)]
    by (auto simp: upsert_def split: option.splits)
  show "distinct (map (take 2) (upsert new rs))"
    using assms(3) replace_first_props(2)[OF assms(1,2)] replace_first_None[of new rs]
    by (auto simp: upsert_def split: option.splits)
qed

lemma log_habit_tracker:
  assumes rs: "list_all good_row rs" and call: "wf_habit_call (d, h, s)"
  defines "new \<equiv> [d, h, s, coach_comment (habit_streak h s (tracker_text rs)) s]"
  shows "good_row new"
    and "splitlines (read_text (tracker_text rs)) = tracker_lines @ row_lines rs"
    and "snd (log_habit d h s (Some (tracker_text rs))) = Some (tracker_text (upsert new rs))"
    and "replace_first new rs = None \<Longrightarrow>
           tracker_lines @ row_lines (upsert new rs) = (tracker_lines @ row_lines rs) @ [[], row_of new]"
proof -
  from call have d: "date_str_ok d" and hs: "habit_cell h" "habit_cell s" by simp_all
  show g: "good_row new"
    using d hs date_str_ok_cell(1)[OF d] habit_cell_comment
    by (simp add: new_def good_row_def)
  note rd = tracker_text_read[OF rs]
  show "splitlines (read_text (tracker_text rs)) = tracker_lines @ row_lines rs"
    by (simp only: rd)
  have row: "habit_row d h s (coach_comment (habit_streak h s (tracker_text rs)) s) = row_of new"
    by (simp add: habit_row_eq new_def)
  have key: "take 2 new = [d, h]" by (simp add: new_def)
  have scan: "update_scan d h (row_of new) (tracker_lines @ row_lines rs)
                = map_option (\<lambda>rs'. tracker_lines @ row_lines rs') (replace_first new rs)"
    by (simp add: update_scan_header update_scan_rows[OF rs key] option.map_comp comp_def)
  have lines': "(case update_scan d h (row_of new) (tracker_lines @ row_lines rs) of
                   Some updated \<Rightarrow> updated
                 | None \<Rightarrow> append_row (tracker_lines @ row_lines rs) (row_of new))
                = tracker_lines @ row_lines (upsert new rs)"
    by (cases "replace_first new rs") (simp_all add: scan upsert_def append_row_tracker[OF rs])
  have gu: "list_all good_row (upsert new rs)"
    using rs g by (auto simp: upsert_def split: option.splits dest: replace_first_props(1))
  show "snd (log_habit d h s (Some (tracker_text rs))) = Some (tracker_text (upsert new rs))"
    by (simp add: log_habit_def Let_def rd row lines' tracker_text_strip[OF gu]
            cong: option.case_cong)
  show "replace_first new rs = None \<Longrightarrow>
           tracker_lines @ row_lines (upsert new rs) = (tracker_lines @ row_lines rs) @ [[], row_of new]"
    by (simp add: upsert_def)
qed

lemma filter_key_distinct:
  "distinct (map f xs) \<Longrightarrow> length (filter (\<lambda>x. f x = k) xs) \<le> 1"
proof (induction xs)
  case Nil
  then show ?case by simp
next
  case (Cons x xs)
  show ?case
  proof (cases "f x = k")
    case True
    with Cons.prems have "\<forall>y\<in>set xs. f y \<noteq> k" by (force simp: image_iff)
    then have "filter (\<lambda>x. f x = k) xs = []" by (simp add: filter_empty_conv)
    with True show ?thesis by simp
  next
    case False
    with Cons show ?thesis by simp
  qed
qed

lemma row_key_blank [simp]: "row_key [] = None"
  by (simp add: row_key_def)

lemma good_row_key:
  assumes "good_row r"
  shows "row_key (row_of r) = Some (d, h) \<longleftrightarrow> take 2 r = [d, h]"
proof -
  from assms obtain a b c e where "r = [a, b, c, e]" by (rule good_row_cells)
  then show ?thesis using good_row_line(6)[OF assms] by auto
qed

lemma filter_row_lines:
  assumes "list_all good_row rs"
  shows "filter (\<lambda>l. row_key l = Some (d, h)) (row_lines rs)
           = map row_of (filter (\<lambda>r. take 2 r = [d, h]) rs)"
  using assms by (induction rs) (simp_all add: good_row_key)

lemma header_keys:
  "length (filter (\<lambda>l. row_key l = Some (d', h')) tracker_lines) \<le> 1"
  "date_str_ok d \<Longrightarrow> filter (\<lambda>l. row_key l = Some (d, h)) tracker_lines = []"
proof -
  have m: "filter (\<lambda>l. row_key l = k) tracker_lines = []
           \<longleftrightarrow> k \<notin> set (map row_key tracker_lines)" for k
    by (auto simp: filter_empty_conv)
  have "length (filter (\<lambda>l. row_key l = Some (d', h')) tracker_lines)
          = length (filter (\<lambda>x. x = Some (d', h')) (map row_key tracker_lines))"
    by (simp add: filter_map comp_def)
  also have "\<dots> = length (filter (\<lambda>x. x = Some (d', h'))
                       [None, None, Some (''Date'', ''Habit''), Some ('':---'', '':---'')])"
    by (simp only: tracker_lines_props(7))
  also have "\<dots> \<le> 1" by auto
  finally show "length (filter (\<lambda>l. row_key l = Some (d', h')) tracker_lines) \<le> 1" .
  have "\<not> date_str_ok ''Date''" "\<not> date_str_ok '':---''" by code_simp+
  then show "date_str_ok d \<Longrightarrow> filter (\<lambda>l. row_key l = Some (d, h)) tracker_lines = []"
    unfolding m tracker_lines_props(7) by auto
qed

lemma rows_without_date:
  assumes "list_all good_row rs" "\<not> date_str_ok d"
  shows "filter (\<lambda>r. take 2 r = [d, h]) rs = []"
proof -
  have "take 2 r \<noteq> [d, h]" if "good_row r" for r
  proof -
    from that obtain a b c e where r: "r = [a, b, c, e]" and "date_str_ok a"
      by (rule good_row_cells)
    with assms(2) show ?thesis by auto
  qed
  with assms(1) show ?thesis by (auto simp: filter_empty_conv list_all_iff)
qed

lemma at_most_one_row:
  assumes "list_all good_row rs" "distinct (map (take 2) rs)"
  shows "length (filter (\<lambda>l. row_key l = Some (d, h)) (tracker_lines @ row_lines rs)) \<le> 1"
proof (cases "date_str_ok d")
  case True
  have "length (filter (\<lambda>r. take 2 r = [d, h]) rs) \<le> 1"
    using assms(2) by (rule filter_key_distinct)
  then show ?thesis
    by (simp add: header_keys(2)[OF True] filter_row_lines[OF assms(1)])
next
  case False
  then show ?thesis
    using header_keys(1)[of d h]
    by (simp add: filter_row_lines[OF assms(1)] rows_without_date[OF assms(1) False])
qed

lemma keep_other_rows:
  assumes "list_all good_row rs" "[d, h] \<notin> set (map (take 2) rs)"
  shows "map (\<lambda>l. if row_key l = Some (d, h) then n else l) (row_lines rs) = row_lines rs"
  using assms by (induction rs) (auto simp: good_row_key)

lemma replace_in_place:
  assumes "list_all good_row rs" "distinct (map (take 2) rs)" "take 2 new = [d, h]"
    "replace_first new rs = Some rs'"
  shows "row_lines rs' = map (\<lambda>l. if row_key l = Some (d, h) then row_of new else l) (row_lines rs)"
  using assms(1,2,4)
proof (induction rs arbitrary: rs')
  case Nil
  then show ?case by simp
next
  case (Cons r rs)
  then have g: "good_row r" "list_all good_row rs" by simp_all
  show ?case
  proof (cases "take 2 r = [d, h]")
    case True
    with Cons.prems assms(3) have rs': "rs' = new # rs" and "[d, h] \<notin> set (map (take 2) rs)"
      by auto
    then show ?thesis
      using True by (simp add: good_row_key[OF g(1)] keep_other_rows[OF g(2)])
  next
    case False
    with Cons.prems assms(3) obtain rs'' where "replace_first new rs = Some rs''" "rs' = r # rs''"
      by auto
    with Cons g False show ?thesis by (simp add: good_row_key[OF g(1)])
  qed
qed

lemma keep_header:
  assumes "date_str_ok d"
  shows "map (\<lambda>l. if row_key l = Some (d, h) then n else l) tracker_lines = tracker_lines"
proof -
  have "\<forall>l\<in>set tracker_lines. row_key l \<noteq> Some (d, h)"
    using header_keys(2)[OF assms, of h] by (simp add: filter_empty_conv)
  then show ?thesis by (simp add: map_idI)
qed

lemma has_row_iff:
  assumes "list_all good_row rs" "date_str_ok d" "take 2 new = [d, h]"
  shows "list_ex (\<lambda>l. row_key l = Some (d, h)) (tracker_lines @ row_lines rs)
           \<longleftrightarrow> replace_first new rs \<noteq> None"
proof -
  have "list_ex (\<lambda>l. row_key l = Some (d, h)) (tracker_lines @ row_lines rs)
          \<longleftrightarrow> filter (\<lambda>l. row_key l = Some (d, h)) (tracker_lines @ row_lines rs) \<noteq> []"
    by (auto simp: list_ex_iff filter_empty_conv)
  also have "\<dots> \<longleftrightarrow> filter (\<lambda>r. take 2 r = [d, h]) rs \<noteq> []"
    by (simp add: header_keys(2)[OF assms(2)] filter_row_lines[OF assms(1)])
  also have "\<dots> \<longleftrightarrow> [d, h] \<in> set (map (take 2) rs)"
    by (force simp: filter_empty_conv image_iff)
  finally show ?thesis by (simp add: replace_first_None assms(3))
qed

lemma log_habits_snoc:
  "log_habits (cs @ [(d, h, s)]) f = snd (log_habit d h s (log_habits cs f))"
  by (induction cs arbitrary: f) auto

lemma reach_tracker:
  "list_all wf_habit_call cs \<Longrightarrow>
   \<exists>rs. tracker_after cs = Some (tracker_text rs) \<and> list_all good_row rs \<and> distinct (map (take 2) rs)"
proof (induction cs rule: rev_induct)
  case Nil
  have "tracker_after [] = Some (tracker_text [])"
    by (simp add: tracker_after_def ensure_tracker_exists_def tracker_header_eq)
  then show ?case by auto
next
  case (snoc c cs)
  then obtain rs where rs: "tracker_after cs = Some (tracker_text rs)" "list_all good_row rs"
      "distinct (map (take 2) rs)"
    by auto
  obtain d h s where c: "c = (d, h, s)" by (cases c)
  with snoc.prems have call: "wf_habit_call (d, h, s)" by simp
  let ?new = "[d, h, s, coach_comment (habit_streak h s (tracker_text rs)) s]"
  note step = log_habit_tracker[OF rs(2) call]
  have "tracker_after (cs @ [c]) = Some (tracker_text (upsert ?new rs))"
    using step(3) rs(1) by (simp add: tracker_after_def c log_habits_snoc)
  moreover note upsert_props[OF rs(2) step(1) rs(3)]
  ultimately show ?case by blast
qed


text \<open>
  Update or append, line by line. After any sequence of well-formed calls the tracker
  file exists, and a further well-formed call leaves a file where: if some line of the
  tracker is a row of the call's date and habit, that line is replaced by the new row
  where it stands and every other line is as before; otherwise a blank line and the new
  row are appended. After such calls at most one line is a row of any given date and
  habit.
\<close>

lemma log_habit_upsert_lines:
  assumes "list_all wf_habit_call calls" and "wf_habit_call (date_str, habit, status)"
  shows "\<exists>content content'.
          tracker_after calls = Some content \<and>
          snd (log_habit date_str habit status (Some content)) = Some content' \<and>
          (let lines = splitlines (read_text content);
               lines' = splitlines (read_text content');
               new_row = habit_row date_str habit status
                           (coach_comment (habit_streak habit status (read_text content)) status)
           in (if list_ex (\<lambda>l. row_key l = Some (date_str, habit)) lines
               then lines' = map (\<lambda>l. if row_key l = Some (date_str, habit) then new_row else l) lines
               else lines' = lines @ [[], new_row]) \<and>
              (\<forall>d h. length (filter (\<lambda>l. row_key l = Some (d, h)) lines) \<le> 1))"
proof -
  from assms(1) obtain rs where rs: "tracker_after calls = Some (tracker_text rs)"
      "list_all good_row rs" "distinct (map (take 2) rs)"
    using reach_tracker by blast
  let ?new = "[date_str, habit, status,
               coach_comment (habit_streak habit status (tracker_text rs)) status]"
  note step = log_habit_tracker[OF rs(2) assms(2)]
  note up = upsert_props[OF rs(2) step(1) rs(3)]
  from assms(2) have d: "date_str_ok date_str" by simp
  have key: "take 2 ?new = [date_str, habit]" by simp
  have rd: "read_text (tracker_text rs) = tracker_text rs"
    by (rule tracker_text_read(1)[OF rs(2)])
  have lines: "splitlines (read_text (tracker_text rs)) = tracker_lines @ row_lines rs"
    by (rule step(2))
  have lines': "splitlines (read_text (tracker_text (upsert ?new rs)))
                  = tracker_lines @ row_lines (upsert ?new rs)"
    by (simp only: tracker_text_read[OF up(1)])
  have row: "habit_row date_str habit status
               (coach_comment (habit_streak habit status (read_text (tracker_text rs))) status)
             = row_of ?new"
    by (simp add: rd habit_row_eq)
  have one: "length (filter (\<lambda>l. row_key l = Some (d, h)) (tracker_lines @ row_lines rs)) \<le> 1"
    for d h
    using rs(2,3) by (rule at_most_one_row)
  have upd: "if list_ex (\<lambda>l. row_key l = Some (date_str, habit)) (tracker_lines @ row_lines rs)
      then tracker_lines @ row_lines (upsert ?new rs)
             = map (\<lambda>l. if row_key l = Some (date_str, habit) then row_of ?new else l)
                 (tracker_lines @ row_lines rs)
      else tracker_lines @ row_lines (upsert ?new rs)
             = (tracker_lines @ row_lines rs) @ [[], row_of ?new]"
  proof (cases "replace_first ?new rs")
    case None
    then have "\<not> list_ex (\<lambda>l. row_key l = Some (date_str, habit)) (tracker_lines @ row_lines rs)"
      using has_row_iff[OF rs(2) d key] by simp
    with step(4)[OF None] show ?thesis by simp
  next
    case (Some rs')
    then have ex: "list_ex (\<lambda>l. row_key l = Some (date_str, habit)) (tracker_lines @ row_lines rs)"
      using has_row_iff[OF rs(2) d key] by simp
    have "row_lines (upsert ?new rs)
            = map (\<lambda>l. if row_key l = Some (date_str, habit) then row_of ?new else l) (row_lines rs)"
      using replace_in_place[OF rs(2,3) key Some] Some by (simp add: upsert_def)
    with ex show ?thesis by (simp add: keep_header[OF d])
  qed
  show ?thesis
    apply (rule exI[of _ "tracker_text rs"])
    apply (rule exI[of _ "tracker_text (upsert ?new rs)"])
    apply (simp only: rs(1) step(3) Let_def lines lines' row simp_thms)
    using upd one apply simp
    done
qed

section \<open>Facts about the streak\<close>








section \<open>Properties\<close>

text \<open>
  C7. Both ensure operations leave a file that exists exactly as it is, rows and header
  alike, and create the empty table only when the file is absent. So ensuring a table
  twice gives the file that ensuring it once gives, for the finance ledger (whatever
  the clock says at the second call) and for the habit tracker.
\<close>

theorem ensure_idempotent:
  "ensure_file_exists date2 month2 (ensure_file_exists date1 month1 file)
     = ensure_file_exists date1 month1 file
   \<and> ensure_tracker_exists (ensure_tracker_exists tracker) = ensure_tracker_exists tracker
   \<and> ensure_file_exists date1 month1 (Some content) = Some content
   \<and> ensure_tracker_exists (Some content) = Some content
   \<and> ensure_file_exists date1 month1 None = Some (finance_header date1 month1)
   \<and> ensure_tracker_exists None = Some tracker_header"
  by (simp add: ensure_file_exists_def ensure_tracker_exists_def split: option.split)


text \<open>
  C3. The scan of \<open>delete_specific_transaction\<close> skips the frontmatter line \<open>type:\<close>
  but not \<open>status:\<close> and \<open>created:\<close>. On a ledger that was just created, the criteria
  \<open>active\<close> deletes the metadata line \<open>status: active\<close>.
\<close>

theorem delete_removes_frontmatter_line:
  "delete_specific_transaction fresh_ledger ''active'' =
     (''Successfully deleted transaction: status: active'',
      Some (join_nl
        [''---'',
         ''type: finance_log'',
         ''created: 2025-11-03'',
         ''---'',
         '''',
         ''# Financial Log: November 2025'',
         '''',
         ''| Date | Type | Category | Description | Amount | Currency |'',
         ''| :--- | :--- | :--- | :--- | :--- | :--- |''] @ [CHR 0x0A]))"
  by code_simp

text \<open>
  C6. When the file does not exist, both operations return their not-found message. On
  a ledger with no data row, \<open>undo_last_transaction\<close> reports that there is nothing to
  undo and leaves the file alone, while \<open>delete_specific_transaction\<close> with the
  criteria \<open>2025\<close> reports a deletion: it removes the line \<open>created:\<close>.
\<close>

theorem delete_on_empty_ledger_reports_deletion:
  "delete_specific_transaction None criteria = (''No transaction file found for this month.'', None)
   \<and> undo_last_transaction None = (''No transaction file found.'', None)
   \<and> undo_last_transaction fresh_ledger = (''No transactions found to undo.'', fresh_ledger)
   \<and> delete_specific_transaction fresh_ledger ''2025'' =
     (''Successfully deleted transaction: created: 2025-11-03'',
      Some (join_nl
        [''---'',
         ''type: finance_log'',
         ''status: active'',
         ''---'',
         '''',
         ''# Financial Log: November 2025'',
         '''',
         ''| Date | Type | Category | Description | Amount | Currency |'',
         ''| :--- | :--- | :--- | :--- | :--- | :--- |''] @ [CHR 0x0A]))"
proof (intro conjI)
  show "delete_specific_transaction None criteria
          = (''No transaction file found for this month.'', None)"
    by (simp add: delete_specific_transaction_def)
  show "undo_last_transaction None = (''No transaction file found.'', None)"
    by (simp add: undo_last_transaction_def)
  show "undo_last_transaction fresh_ledger = (''No transactions found to undo.'', fresh_ledger)"
    by code_simp
  show "delete_specific_transaction fresh_ledger ''2025'' =
     (''Successfully deleted transaction: created: 2025-11-03'',
      Some (join_nl
        [''---'',
         ''type: finance_log'',
         ''status: active'',
         ''---'',
         '''',
         ''# Financial Log: November 2025'',
         '''',
         ''| Date | Type | Category | Description | Amount | Currency |'',
         ''| :--- | :--- | :--- | :--- | :--- | :--- |''] @ [CHR 0x0A]))"
    by code_simp
qed


text \<open>
  C10. The streak scan takes a line for the habit when the habit's name occurs anywhere
  in it, so every row of a habit whose name extends the name is taken too. Two rows
  \<open>Done\<close> of \<open>Run 5k\<close> give \<open>Run\<close> a streak of 2 with no row of its own, and a row
  \<open>Missed\<close> of \<open>Run 5k\<close> ends the streak of \<open>Run\<close> at 0 although the last row of
  \<open>Run\<close> is \<open>Done\<close>.
\<close>

theorem streak_counts_longer_named_habit:
  "contains habit (habit_row date_str (before @ habit @ after) status comment)
   \<and> next_streak ''Run'' ''Done''
        (tracker_after [(''2025-11-01'', ''Run 5k'', ''Done''), (''2025-11-02'', ''Run 5k'', ''Done'')])
       = Some 2
   \<and> next_streak ''Run'' ''Done''
        (tracker_after [(''2025-11-01'', ''Run'', ''Done''), (''2025-11-02'', ''Run 5k'', ''Missed'')])
       = Some 0
   \<and> next_streak ''Run'' ''Done'' (tracker_after [(''2025-11-01'', ''Run'', ''Done'')]) = Some 1"
proof -
  have "contains habit (habit_row date_str (before @ habit @ after) status comment)"
    unfolding habit_row_def contains_iff by (metis append.assoc)
  moreover have "next_streak ''Run'' ''Done''
        (tracker_after [(''2025-11-01'', ''Run 5k'', ''Done''), (''2025-11-02'', ''Run 5k'', ''Done'')])
       = Some 2"
    by code_simp
  moreover have "next_streak ''Run'' ''Done''
        (tracker_after [(''2025-11-01'', ''Run'', ''Done''), (''2025-11-02'', ''Run 5k'', ''Missed'')])
       = Some 0"
    by code_simp
  moreover have "next_streak ''Run'' ''Done'' (tracker_after [(''2025-11-01'', ''Run'', ''Done'')])
       = Some 1"
    by code_simp
  ultimately show ?thesis by blast
qed



text \<open>
  C5. In the tool step, a name that is not in the registry gives the string
  \<open>Error: Tool <name> not found.\<close>, and a registered tool that raises an \<open>Exception\<close>
  gives \<open>Error executing tool: \<close> followed by the exception's message. In both cases
  the step raises nothing and the loop goes on: the string is sent to the model and the
  loop continues with the model's next response.
\<close>

theorem tool_step_never_aborts:
  "(available_tools tool_name = None \<longrightarrow>
      execute_tool available_tools tool_name args = Inr (''Error: Tool '' @ tool_name @ '' not found.''))
   \<and> (available_tools tool_name = Some f \<and> f args = Inl (Exception e) \<longrightarrow>
      execute_tool available_tools tool_name args = Inr (''Error executing tool: '' @ e))
   \<and> (first_function_call candidate = Some (tool_name, args) \<and>
      (available_tools tool_name = None \<or>
       (\<exists>f e. available_tools tool_name = Some f \<and> f args = Inl (Exception e))) \<longrightarrow>
      (\<exists>tool_result.
         execute_tool available_tools tool_name args = Inr tool_result \<and>
         react_loop available_tools send chat (candidate # others) =
           (case send chat (tool_name, tool_result) of
              Inl e \<Rightarrow> Some (Inl e)
            | Inr (response', chat') \<Rightarrow> react_loop available_tools send chat' response')))"
proof (intro conjI impI)
  assume "available_tools tool_name = None"
  then show "execute_tool available_tools tool_name args
               = Inr (''Error: Tool '' @ tool_name @ '' not found.'')"
    by (simp add: execute_tool_def)
next
  assume "available_tools tool_name = Some f \<and> f args = Inl (Exception e)"
  then show "execute_tool available_tools tool_name args = Inr (''Error executing tool: '' @ e)"
    by (simp add: execute_tool_def)
next
  assume a: "first_function_call candidate = Some (tool_name, args) \<and>
      (available_tools tool_name = None \<or>
       (\<exists>f e. available_tools tool_name = Some f \<and> f args = Inl (Exception e)))"
  then obtain tool_result where r: "execute_tool available_tools tool_name args = Inr tool_result"
    by (auto simp: execute_tool_def)
  from a have c: "first_function_call candidate = Some (tool_name, args)" by simp
  have "react_loop available_tools send chat (candidate # others) =
           (case send chat (tool_name, tool_result) of
              Inl e \<Rightarrow> Some (Inl e)
            | Inr (response', chat') \<Rightarrow> react_loop available_tools send chat' response')"
    by (subst react_loop.simps) (simp add: c r)
  with r show "\<exists>tool_result.
         execute_tool available_tools tool_name args = Inr tool_result \<and>
         react_loop available_tools send chat (candidate # others) =
           (case send chat (tool_name, tool_result) of
              Inl e \<Rightarrow> Some (Inl e)
            | Inr (response', chat') \<Rightarrow> react_loop available_tools send chat' response')"
    by blast
qed

text \<open>
  C5, at a registry that holds \<open>echo\<close> and \<open>boom\<close>: the call of the unknown tool
  \<open>nope\<close> and the call of \<open>boom\<close>, which raises, both end the loop with the
  model's answer to the error string.
\<close>

theorem tool_step_never_aborts_witness:
  "demo_tools ''nope'' = None
   \<and> execute_tool demo_tools ''nope'' ''x'' = Inr ''Error: Tool nope not found.''
   \<and> demo_tools ''boom'' = Some (\<lambda>a. Inl (Exception (''bad '' @ a)))
   \<and> execute_tool demo_tools ''boom'' ''x'' = Inr ''Error executing tool: bad x''
   \<and> first_function_call [call_part ''nope'' ''x''] = Some (''nope'', ''x'')
   \<and> react_loop demo_tools demo_send () [[call_part ''nope'' ''x'']]
       = Some (Inr [[\<lparr>function_call = None, part_text = ''Error: Tool nope not found.''\<rparr>]])
   \<and> react_loop demo_tools demo_send () [[call_part ''boom'' ''x'']]
       = Some (Inr [[\<lparr>function_call = None, part_text = ''Error executing tool: bad x''\<rparr>]])"
proof -
  have n: "demo_tools ''nope'' = None"
    by (simp add: demo_tools_def)
  have b: "demo_tools ''boom'' = Some (\<lambda>a. Inl (Exception (''bad '' @ a)))"
    by (simp add: demo_tools_def)
  have fn: "first_function_call [call_part ''nope'' ''x''] = Some (''nope'', ''x'')"
    by (simp add: call_part_def)
  have fb: "first_function_call [call_part ''boom'' ''x''] = Some (''boom'', ''x'')"
    by (simp add: call_part_def)
  have stop: "react_loop demo_tools demo_send () [[\<lparr>function_call = None, part_text = t\<rparr>]]
                = Some (Inr [[\<lparr>function_call = None, part_text = t\<rparr>]])" for t
    by (subst react_loop.simps) simp
  note t1 = tool_step_never_aborts
    [of demo_tools "''nope''" "''x''" "\<lambda>a. Inl (Exception (''bad '' @ a))" "''bad x''"
        "[call_part ''nope'' ''x'']" demo_send "()" "[]"]
  note t2 = tool_step_never_aborts
    [of demo_tools "''boom''" "''x''" "\<lambda>a. Inl (Exception (''bad '' @ a))" "''bad x''"
        "[call_part ''boom'' ''x'']" demo_send "()" "[]"]
  have e1: "execute_tool demo_tools ''nope'' ''x'' = Inr ''Error: Tool nope not found.''"
    using t1 n by simp
  have e2: "execute_tool demo_tools ''boom'' ''x'' = Inr ''Error executing tool: bad x''"
    using t2 b by simp
  have l1: "react_loop demo_tools demo_send () [[call_part ''nope'' ''x'']]
       = Some (Inr [[\<lparr>function_call = None, part_text = ''Error: Tool nope not found.''\<rparr>]])"
    using t1 n fn e1 by (simp add: demo_send_def stop)
  have l2: "react_loop demo_tools demo_send () [[call_part ''boom'' ''x'']]
       = Some (Inr [[\<lparr>function_call = None, part_text = ''Error executing tool: bad x''\<rparr>]])"
    using t2 b fb e2 by (auto simp: demo_send_def stop)
  from n e1 b e2 fn l1 l2 show ?thesis by blast
qed







text \<open>
  C1. On the ledger with the amounts 10, 20 and 10 the criteria \<open>10\<close> deletes the third
  transaction and leaves the first two. The line deleted is the last line that matches
  and that the scan does not skip, and the scan skips \<open>type:\<close> but not the
  frontmatter lines \<open>status:\<close> and \<open>created:\<close>: with the criteria \<open>active\<close> no
  data row of that ledger matches, and the line deleted is the metadata line
  \<open>status: active\<close>, with a message of success, the three transactions staying.
\<close>

theorem delete_takes_frontmatter_when_no_row_matches:
  "ledger_10_20_10 = Some text_10_20_10
   \<and> delete_specific_transaction ledger_10_20_10 ''10'' =
       (''Successfully deleted transaction: | 2025-11-03 09:32 | Expense | General | gift | 10 | USD |'',
        Some (join_nl
          [''---'',
           ''type: finance_log'',
           ''status: active'',
           ''created: 2025-11-03'',
           ''---'',
           '''',
           ''# Financial Log: November 2025'',
           '''',
           ''| Date | Type | Category | Description | Amount | Currency |'',
           ''| :--- | :--- | :--- | :--- | :--- | :--- |'',
           ''| 2025-11-03 09:30 | Expense | General | pen | 10 | USD |'',
           ''| 2025-11-03 09:31 | Expense | General | book | 20 | USD |''] @ [CHR 0x0A]))
   \<and> filter (\<lambda>l. undo_row l \<and> matches (clean_criteria ''active'')
                     (re_search_number (clean_criteria ''active'')) l)
        (splitlines (read_text text_10_20_10)) = []
   \<and> delete_specific_transaction ledger_10_20_10 ''active'' =
       (''Successfully deleted transaction: status: active'',
        Some (join_nl
          [''---'',
           ''type: finance_log'',
           ''created: 2025-11-03'',
           ''---'',
           '''',
           ''# Financial Log: November 2025'',
           '''',
           ''| Date | Type | Category | Description | Amount | Currency |'',
           ''| :--- | :--- | :--- | :--- | :--- | :--- |'',
           ''| 2025-11-03 09:30 | Expense | General | pen | 10 | USD |'',
           ''| 2025-11-03 09:31 | Expense | General | book | 20 | USD |'',
           ''| 2025-11-03 09:32 | Expense | General | gift | 10 | USD |''] @ [CHR 0x0A]))"
proof (intro conjI)
  show "ledger_10_20_10 = Some text_10_20_10"
    by code_simp
  show "delete_specific_transaction ledger_10_20_10 ''10'' =
       (''Successfully deleted transaction: | 2025-11-03 09:32 | Expense | General | gift | 10 | USD |'',
        Some (join_nl
          [''---'',
           ''type: finance_log'',
           ''status: active'',
           ''created: 2025-11-03'',
           ''---'',
           '''',
           ''# Financial Log: November 2025'',
           '''',
           ''| Date | Type | Category | Description | Amount | Currency |'',
           ''| :--- | :--- | :--- | :--- | :--- | :--- |'',
           ''| 2025-11-03 09:30 | Expense | General | pen | 10 | USD |'',
           ''| 2025-11-03 09:31 | Expense | General | book | 20 | USD |''] @ [CHR 0x0A]))"
    by code_simp
  show "filter (\<lambda>l. undo_row l \<and> matches (clean_criteria ''active'')
                     (re_search_number (clean_criteria ''active'')) l)
        (splitlines (read_text text_10_20_10)) = []"
    by code_simp
  show "delete_specific_transaction ledger_10_20_10 ''active'' =
       (''Successfully deleted transaction: status: active'',
        Some (join_nl
          [''---'',
           ''type: finance_log'',
           ''created: 2025-11-03'',
           ''---'',
           '''',
           ''# Financial Log: November 2025'',
           '''',
           ''| Date | Type | Category | Description | Amount | Currency |'',
           ''| :--- | :--- | :--- | :--- | :--- | :--- |'',
           ''| 2025-11-03 09:30 | Expense | General | pen | 10 | USD |'',
           ''| 2025-11-03 09:31 | Expense | General | book | 20 | USD |'',
           ''| 2025-11-03 09:32 | Expense | General | gift | 10 | USD |''] @ [CHR 0x0A]))"
    by code_simp
qed






text \<open>
  C8. The update loop takes every line that holds the word \<open>Date\<close> for the header and
  passes over it. The habit \<open>Date night\<close> logged as done and then as missed on one
  day leaves two rows of that date and habit: the first is not replaced, the second is
  appended. The same two calls for \<open>Movie night\<close> leave the one row, replaced.
\<close>

theorem log_habit_keeps_two_rows_of_date_night:
  "map_option (\<lambda>content. splitlines (read_text content)) (tracker_after (done_then_missed ''Date night''))
     = Some (tracker_lines @
         ['''', ''| 2025-11-01 | Date night | Done | Keep pushing. |'',
          '''', habit_row ''2025-11-01'' ''Date night'' ''Missed'' (coach_comment 0 ''Missed'')])
   \<and> map_option (\<lambda>content. length (filter (\<lambda>l. row_key l = Some (''2025-11-01'', ''Date night''))
                                (splitlines (read_text content))))
        (tracker_after (done_then_missed ''Date night'')) = Some 2
   \<and> map_option (\<lambda>content. splitlines (read_text content)) (tracker_after (done_then_missed ''Movie night''))
     = Some (tracker_lines @
         ['''', habit_row ''2025-11-01'' ''Movie night'' ''Missed'' (coach_comment 0 ''Missed'')])"
  by code_simp

end
